theory Spec2Isabelle
  imports Complex_Main "HOL-Library.Sublist" "HOL-Library.List_Lexorder" "HOL-Library.Char_ord"
begin

section \<open>Text\<close>

text \<open>
  Python \<open>str\<close> values are modelled as \<open>string\<close>, a list of characters with code points
  0 to 255; text with code points above 255 is outside the model. The helpers below are the
  \<open>str\<close> methods the repository calls, with Python's results on that range.
\<close>

definition startswith :: "string \<Rightarrow> string \<Rightarrow> bool" where
  \<comment> \<open>\<open>s.startswith(p)\<close>\<close>
  "startswith s p = prefix p s"

definition whitespace :: "char list" where
  \<comment> \<open>the code points below 256 for which \<open>str.isspace\<close> holds: TAB, LF, VT, FF, CR,
      FS, GS, RS, US, space, NEL, NBSP\<close>
  "whitespace = [CHR 0x09, CHR 0x0A, CHR 0x0B, CHR 0x0C, CHR 0x0D, CHR 0x1C, CHR 0x1D,
     CHR 0x1E, CHR 0x1F, CHR 0x20, CHR 0x85, CHR 0xA0]"

definition isspace :: "char \<Rightarrow> bool" where
  "isspace c = (c \<in> set whitespace)"

definition strip :: "string \<Rightarrow> string" where
  \<comment> \<open>\<open>s.strip()\<close>\<close>
  "strip s = rev (dropWhile isspace (rev (dropWhile isspace s)))"

fun split_on :: "char \<Rightarrow> string \<Rightarrow> string list" where
  \<comment> \<open>\<open>s.split(c)\<close> for a one-character separator: never empty, \<open>''''.split(c) = ['''']\<close>\<close>
  "split_on c [] = [[]]"
| "split_on c (x # xs) =
     (if x = c then [] # split_on c xs
      else (case split_on c xs of [] \<Rightarrow> [[x]] | w # ws \<Rightarrow> (x # w) # ws))"

fun join :: "string \<Rightarrow> string list \<Rightarrow> string" where
  \<comment> \<open>\<open>sep.join(xs)\<close>\<close>
  "join sep [] = []"
| "join sep [x] = x"
| "join sep (x # y # ys) = x @ sep @ join sep (y # ys)"

definition is_ascii_upper :: "char \<Rightarrow> bool" where
  "is_ascii_upper c = (CHR ''A'' \<le> c \<and> c \<le> CHR ''Z'')"

definition is_ascii_lower :: "char \<Rightarrow> bool" where
  "is_ascii_lower c = (CHR ''a'' \<le> c \<and> c \<le> CHR ''z'')"

definition is_ascii_digit :: "char \<Rightarrow> bool" where
  \<comment> \<open>the class \<open>[0-9]\<close>\<close>
  "is_ascii_digit c = (CHR ''0'' \<le> c \<and> c \<le> CHR ''9'')"

definition is_ascii_letter :: "char \<Rightarrow> bool" where
  \<comment> \<open>the class \<open>[a-zA-Z]\<close>\<close>
  "is_ascii_letter c = (is_ascii_lower c \<or> is_ascii_upper c)"

definition lower_char :: "char \<Rightarrow> char" where
  \<comment> \<open>\<open>str.lower\<close> on one character below code point 256: the ASCII capitals, and the
      Latin-1 capitals U+00C0 to U+00DE without the multiplication sign U+00D7\<close>
  "lower_char c =
     (if is_ascii_upper c \<or> (CHR 0xC0 \<le> c \<and> c \<le> CHR 0xDE \<and> c \<noteq> CHR 0xD7)
      then char_of (of_char c + (32::nat)) else c)"

definition lower :: "string \<Rightarrow> string" where
  "lower s = map lower_char s"

definition upper_char :: "char \<Rightarrow> string" where
  \<comment> \<open>\<open>str.upper\<close> on one character below code point 256: the ASCII small letters, the
      Latin-1 small letters U+00E0 to U+00FE without the division sign U+00F7, and the sharp
      s U+00DF, which becomes two letters. The capitals of U+00B5 and U+00FF lie above code
      point 255, outside the model, which leaves these two characters as they are.\<close>
  "upper_char c =
     (if is_ascii_lower c \<or> (CHR 0xE0 \<le> c \<and> c \<le> CHR 0xFE \<and> c \<noteq> CHR 0xF7)
      then [char_of (of_char c - (32::nat))]
      else if c = CHR 0xDF then ''SS'' else [c])"

fun find_sub :: "string \<Rightarrow> string \<Rightarrow> nat option" where
  \<comment> \<open>\<open>s.find(pat)\<close>: the offset of the leftmost occurrence, \<open>None\<close> for \<open>-1\<close>\<close>
  "find_sub pat [] = (if pat = [] then Some 0 else None)"
| "find_sub pat (c # cs) =
     (if prefix pat (c # cs) then Some 0 else map_option Suc (find_sub pat cs))"

fun split_para :: "string \<Rightarrow> string list" where
  \<comment> \<open>\<open>s.split("\n\n")\<close>\<close>
  "split_para [] = [[]]"
| "split_para (c # cs) =
     (if startswith (c # cs) ''\<newline>\<newline>'' then [] # split_para (drop 1 cs)
      else (case split_para cs of [] \<Rightarrow> [[c]] | w # ws \<Rightarrow> (c # w) # ws))"

section \<open>File diffs (core/models.py)\<close>

record FileDiff =
  file_path :: string
  hunk :: string
  change_type :: string

section \<open>Unified diff parsers\<close>

text \<open>
  The repository has two copies of the parser: \<open>parse_unified_diff\<close> in core/diff_parser.py
  and the static method \<open>GitDiffCapture._parse_unified_diff\<close> in adapters/git_observer.py.
  Their loops are the same line for line except in two places: how the post-image path is
  taken from the boundary line, and the prefix of the rename marker (\<open>rename from\<close> in the
  first, \<open>rename\<close> in the second). The loop body is therefore written once, with these two
  as parameters, and instantiated twice.
\<close>

record parser =
  results :: "FileDiff list"
  current_file :: string
  current_lines :: "string list"
  cur_change_type :: string

definition parser_init :: parser where
  \<comment> \<open>\<open>results = []; current_file = ""; current_lines = []; change_type = "modified"\<close>\<close>
  "parser_init = \<lparr>results = [], current_file = [], current_lines = [],
     cur_change_type = ''modified''\<rparr>"

definition is_boundary :: "string \<Rightarrow> bool" where
  \<comment> \<open>\<open>line.startswith("diff --git")\<close>\<close>
  "is_boundary line = startswith line ''diff --git''"

definition is_hunk_line :: "string \<Rightarrow> bool" where
  \<comment> \<open>\<open>line.startswith(("@@", "+", "-", " "))\<close>\<close>
  "is_hunk_line line = (startswith line ''@@'' \<or> startswith line ''+''
     \<or> startswith line ''-'' \<or> startswith line '' '')"

definition close_file :: "parser \<Rightarrow> FileDiff list" where
  \<comment> \<open>\<open>if current_file and current_lines: results.append(FileDiff(...))\<close>, as a value\<close>
  "close_file st =
     (if current_file st \<noteq> [] \<and> current_lines st \<noteq> []
      then results st @ [\<lparr>file_path = current_file st,
                           hunk = join ''\<newline>'' (current_lines st),
                           change_type = cur_change_type st\<rparr>]
      else results st)"

definition parse_line_with :: "(string \<Rightarrow> string) \<Rightarrow> string \<Rightarrow> parser \<Rightarrow> string \<Rightarrow> parser" where
  \<comment> \<open>one iteration of \<open>for line in raw_diff.split("\n")\<close>; \<open>extract\<close> is the path
      extraction and \<open>rn\<close> the rename prefix\<close>
  "parse_line_with extract rn st line =
     (if startswith line ''diff --git'' then
        \<lparr>results = close_file st, current_file = extract line, current_lines = [],
         cur_change_type = ''modified''\<rparr>
      else if startswith line ''new file'' then st\<lparr>cur_change_type := ''added''\<rparr>
      else if startswith line ''deleted file'' then st\<lparr>cur_change_type := ''deleted''\<rparr>
      else if startswith line rn then st\<lparr>cur_change_type := ''renamed''\<rparr>
      else if is_hunk_line line \<and> current_file st \<noteq> [] then
        st\<lparr>current_lines := current_lines st @ [line]\<rparr>
      else st)"

definition parse_lines_with :: "(string \<Rightarrow> string) \<Rightarrow> string \<Rightarrow> string list \<Rightarrow> FileDiff list" where
  \<comment> \<open>the loop from the initial locals, then the emission of the last open file\<close>
  "parse_lines_with extract rn ls = close_file (foldl (parse_line_with extract rn) parser_init ls)"

fun re_search_b :: "string \<Rightarrow> string option" where
  \<comment> \<open>\<open>re.search(r"b/(.+)$", line)\<close>, group 1: the leftmost \<open>b/\<close> that has at least one
      character after it, and everything after it. The lines come from \<open>split("\n")\<close>, so
      they hold no newline, the one character \<open>.\<close> would refuse.\<close>
  "re_search_b [] = None"
| "re_search_b (c # cs) =
     (if startswith (c # cs) ''b/'' \<and> drop 2 (c # cs) \<noteq> [] then Some (drop 2 (c # cs))
      else re_search_b cs)"

definition core_path :: "string \<Rightarrow> string" where
  \<comment> \<open>\<open>match.group(1) if match else ""\<close>\<close>
  "core_path line = (case re_search_b line of Some p \<Rightarrow> p | None \<Rightarrow> [])"

definition parse_unified_diff :: "string \<Rightarrow> FileDiff list" where
  \<comment> \<open>core/diff_parser.py\<close>
  "parse_unified_diff raw_diff =
     (if raw_diff = [] \<or> strip raw_diff = [] then []
      else parse_lines_with core_path ''rename from'' (split_on CHR 0x0A raw_diff))"

fun split_sp_b :: "string \<Rightarrow> string option" where
  \<comment> \<open>\<open>line.split(" b/", 1)\<close>: the text after the first \<open>" b/"\<close>, when there is one\<close>
  "split_sp_b [] = None"
| "split_sp_b (c # cs) =
     (if startswith (c # cs) '' b/'' then Some (drop 3 (c # cs)) else split_sp_b cs)"

definition observer_path :: "string \<Rightarrow> string" where
  \<comment> \<open>\<open>parts[1] if len(parts) > 1 else ""\<close>\<close>
  "observer_path line = (case split_sp_b line of Some p \<Rightarrow> p | None \<Rightarrow> [])"

definition observer_parse_unified_diff :: "string \<Rightarrow> FileDiff list" where
  \<comment> \<open>\<open>GitDiffCapture._parse_unified_diff\<close> in adapters/git_observer.py\<close>
  "observer_parse_unified_diff raw_diff =
     (if strip raw_diff = [] then []
      else parse_lines_with observer_path ''rename'' (split_on CHR 0x0A raw_diff))"

subsection \<open>The parser's result, section by section\<close>

text \<open>
  The specification describes the result of the parser by file sections: a boundary line
  and the lines after it up to the next boundary. The definitions below follow those words,
  not the loop; the theorems further down relate the two.
\<close>

function sections :: "string list \<Rightarrow> (string \<times> string list) list" where
  \<comment> \<open>each boundary line with the lines that follow it, up to the next boundary\<close>
  "sections [] = []"
| "sections (l # ls) =
     (if is_boundary l
      then (l, takeWhile (\<lambda>x. \<not> is_boundary x) ls) # sections (dropWhile (\<lambda>x. \<not> is_boundary x) ls)
      else sections ls)"
  by pat_completeness auto
termination
  by (relation "measure length") (auto simp: less_Suc_eq_le length_dropWhile_le)

definition next_kind :: "string \<Rightarrow> string \<Rightarrow> string \<Rightarrow> string" where
  \<comment> \<open>the pending kind after a line that is not a boundary\<close>
  "next_kind rn k line =
     (if startswith line ''new file'' then ''added''
      else if startswith line ''deleted file'' then ''deleted''
      else if startswith line rn then ''renamed''
      else k)"

definition accumulates :: "string \<Rightarrow> string \<Rightarrow> bool" where
  \<comment> \<open>the lines of an open file that reach the \<open>append\<close> branch of the loop\<close>
  "accumulates rn line = (\<not> startswith line ''new file'' \<and> \<not> startswith line ''deleted file''
      \<and> \<not> startswith line rn \<and> is_hunk_line line)"

definition section_diff :: "(string \<Rightarrow> string) \<Rightarrow> string \<Rightarrow> string \<times> string list \<Rightarrow> FileDiff option" where
  \<comment> \<open>the entry of one section: none when the path or the accumulated lines are empty\<close>
  "section_diff extract rn s =
     (let path = extract (fst s); hunk_lines = filter (accumulates rn) (snd s)
      in if path \<noteq> [] \<and> hunk_lines \<noteq> []
         then Some \<lparr>file_path = path, hunk = join ''\<newline>'' hunk_lines,
                    change_type = foldl (next_kind rn) ''modified'' (snd s)\<rparr>
         else None)"

definition is_file_header :: "string \<Rightarrow> bool" where
  \<comment> \<open>the old and new file header lines of a unified diff\<close>
  "is_file_header line = (startswith line ''---'' \<or> startswith line ''+++'')"

section \<open>Diff capture (adapters/git_observer.py)\<close>

text \<open>
  The exception classes of the tuple \<open>GIT_ERRORS\<close>, and one more constructor for every
  exception outside it (\<open>KeyboardInterrupt\<close>, \<open>MemoryError\<close>, \<open>LookupError\<close> for an unknown
  encoding, and so on). \<open>GIT_ERRORS\<close> is modelled as it is when GitPython can be imported.
\<close>

datatype exn = ODBError | GitError | InvalidGitRepositoryError | GitCommandNotFound
  | OSError | IndexError | BufferError | TypeError | ValueError | OtherException

definition GIT_ERRORS :: "exn list" where
  "GIT_ERRORS = [ODBError, GitError, InvalidGitRepositoryError, GitCommandNotFound,
     OSError, IndexError, BufferError, TypeError, ValueError]"

text \<open>
  The repository is outside the program. A \<open>GitDiffCapture\<close> is modelled by what the
  repository layer answers to the calls the class makes: each answer is a value or a raised
  exception. \<open>git_diff args\<close> stands for \<open>self.repo.git.diff(*args)\<close>, decoded;
  \<open>probe_commits\<close> for \<open>any(self.repo.iter_commits(self.repo.active_branch))\<close>;
  \<open>untracked_files\<close> for \<open>self.repo.untracked_files\<close>. An error of the \<open>repo\<close> property
  itself is an error of each of them. The answers are taken not to change during one call
  of the program.
\<close>

record GitDiffCapture =
  probe_commits :: "exn + bool"
  git_diff :: "string list \<Rightarrow> exn + string"
  untracked_files :: "exn + string list"

definition except :: "exn list \<Rightarrow> 'a \<Rightarrow> exn + 'a \<Rightarrow> exn + 'a" where
  \<comment> \<open>\<open>try: body  except classes: return handler\<close>; other exceptions propagate\<close>
  "except classes handler body =
     (case body of
        Inl e \<Rightarrow> if e \<in> set classes then Inr handler else Inl e
      | Inr v \<Rightarrow> Inr v)"

definition has_commits :: "GitDiffCapture \<Rightarrow> exn + bool" where
  \<comment> \<open>\<open>_has_commits\<close>: \<open>except (TypeError, *GIT_ERRORS): return False\<close>\<close>
  "has_commits g = except (TypeError # GIT_ERRORS) False (probe_commits g)"

definition linebreaks :: "char list" where
  \<comment> \<open>the line boundaries of \<open>str.splitlines\<close> below code point 256\<close>
  "linebreaks = [CHR 0x0A, CHR 0x0B, CHR 0x0C, CHR 0x0D, CHR 0x1C, CHR 0x1D, CHR 0x1E, CHR 0x85]"

function splitlines_from :: "string \<Rightarrow> string \<Rightarrow> string list" where
  \<comment> \<open>\<open>s.splitlines()\<close>, with the current line (reversed) as accumulator; CR LF is one
      boundary, and a final boundary opens no empty line\<close>
  "splitlines_from cur [] = (if cur = [] then [] else [rev cur])"
| "splitlines_from cur (c # cs) =
     (if c \<in> set linebreaks then
        rev cur # splitlines_from [] (if c = CHR 0x0D \<and> startswith cs ''\<newline>'' then tl cs else cs)
      else splitlines_from (c # cur) cs)"
  by pat_completeness auto
termination
  by (relation "measure (\<lambda>(cur, s). length s)") auto

definition splitlines :: "string \<Rightarrow> string list" where
  "splitlines s = splitlines_from [] s"

definition get_dirty_files :: "GitDiffCapture \<Rightarrow> exn + string list" where
  "get_dirty_files g =
     except GIT_ERRORS []
       (case git_diff g [''--name-only'', ''--cached''] of
          Inl e \<Rightarrow> Inl e
        | Inr staged \<Rightarrow>
            (case git_diff g [''--name-only''] of
               Inl e \<Rightarrow> Inl e
             | Inr unstaged \<Rightarrow>
                 (case untracked_files g of
                    Inl e \<Rightarrow> Inl e
                  | Inr untracked \<Rightarrow>
                      Inr (sorted_list_of_set
                        (set (filter (\<lambda>f. strip f \<noteq> []) (splitlines staged))
                         \<union> set (filter (\<lambda>f. strip f \<noteq> []) (splitlines unstaged))
                         \<union> set untracked)))))"

definition get_combined_diff :: "GitDiffCapture \<Rightarrow> string list option \<Rightarrow> exn + FileDiff list" where
  "get_combined_diff g file_paths =
     except GIT_ERRORS []
       (let fnames = (case file_paths of None \<Rightarrow> [] | Some fs \<Rightarrow> fs) in
        case has_commits g of
          Inl e \<Rightarrow> Inl e
        | Inr True \<Rightarrow>
            (let args = (if fnames \<noteq> [] then [''HEAD'', ''--''] @ fnames else [''HEAD'']) in
             case git_diff g args of
               Inl e \<Rightarrow> Inl e
             | Inr raw_diff \<Rightarrow> Inr (observer_parse_unified_diff raw_diff))
        | Inr False \<Rightarrow>
            (let cached_args = (if fnames \<noteq> [] then [''--cached'', ''--''] @ fnames else [''--cached'']);
                 wd_args = (if fnames \<noteq> [] then [''--''] @ fnames else [])
             in case git_diff g cached_args of
                  Inl e \<Rightarrow> Inl e
                | Inr staged \<Rightarrow>
                    (case (if wd_args \<noteq> [] then git_diff g wd_args else Inr []) of
                       Inl e \<Rightarrow> Inl e
                     | Inr unstaged \<Rightarrow>
                         Inr (observer_parse_unified_diff (staged @ ''\<newline>'' @ unstaged)))))"

definition get_unstaged_diff :: "GitDiffCapture \<Rightarrow> exn + FileDiff list" where
  "get_unstaged_diff g =
     except GIT_ERRORS []
       (case git_diff g [] of
          Inl e \<Rightarrow> Inl e
        | Inr raw \<Rightarrow> Inr (observer_parse_unified_diff raw))"

definition get_staged_diff :: "GitDiffCapture \<Rightarrow> exn + FileDiff list" where
  "get_staged_diff g =
     except GIT_ERRORS []
       (case git_diff g [''--cached''] of
          Inl e \<Rightarrow> Inl e
        | Inr raw \<Rightarrow> Inr (observer_parse_unified_diff raw))"

section \<open>Correlation engine (core/matcher.py)\<close>

text \<open>
  A \<open>datetime\<close> is modelled as an integer number of microseconds (the resolution of Python's
  \<open>datetime\<close>), a \<open>timedelta\<close> likewise; \<open>total_seconds\<close> divides by a million. All times are
  taken to be of one kind (the code uses \<open>datetime.utcnow()\<close>, without a time zone), so that
  comparing and subtracting them never raises. Scores are Python floats; the model computes
  them in the reals, without rounding. The \<open>id\<close> of an output record, a fresh \<open>uuid4\<close>, is
  a parameter of the model, and so is the order in which Python lists a set of strings.
\<close>

datatype SourceIDE = CURSOR | TRAE | CLAUDECODE | VSCODE | WINDSURF | CODEX | KIRO | CLINE
  | AIDER | UNKNOWN

datatype NodeStatus = PENDING | COMPLETED | FAILED

record SourceMeta =
  ide :: SourceIDE
  sm_model_name :: string
  sm_session_id :: string

record Intent =
  raw_prompt :: string
  clean_title :: string
  intent_context_files :: "string list"

record Execution =
  ai_response :: string
  reasoning :: string
  diffs :: "FileDiff list"
  affected_files :: "string list"

record PulseNode =
  node_id :: string
  node_timestamp :: int
  node_project_id :: string
  node_project_name :: string
  source :: SourceMeta
  intent :: Intent
  execution :: Execution
  status :: NodeStatus
  token_usage :: nat

record RawConversation =
  timestamp :: int
  prompt :: string
  response :: string
  model_name :: string
  session_id :: string
  context_files :: "string list option"
  project_name :: string
  project_path :: string

record FileChangeEvent =
  ev_file_path :: string
  ev_change_type :: string
  ev_timestamp :: int

record TemporalMatcher =
  window :: int
  pending_prompts :: "(RawConversation \<times> SourceIDE \<times> string \<times> string) list"
  file_changes :: "FileChangeEvent list"

definition timedelta_seconds :: "int \<Rightarrow> int" where
  \<comment> \<open>\<open>timedelta(seconds=n)\<close>, in microseconds\<close>
  "timedelta_seconds n = n * 1000000"

definition total_seconds :: "int \<Rightarrow> real" where
  "total_seconds d = real_of_int d / 1000000"

definition DEFAULT_WINDOW_SECONDS :: int where
  "DEFAULT_WINDOW_SECONDS = 90"

definition ALPHA_TIME :: real where "ALPHA_TIME = 0.5"
definition BETA_FILE :: real where "BETA_FILE = 0.3"
definition GAMMA_KEYWORD :: real where "GAMMA_KEYWORD = 0.2"

definition new_matcher :: "int \<Rightarrow> TemporalMatcher" where
  \<comment> \<open>\<open>TemporalMatcher.__init__(window_seconds)\<close>\<close>
  "new_matcher window_seconds =
     \<lparr>window = timedelta_seconds window_seconds, pending_prompts = [], file_changes = []\<rparr>"

definition add_prompt ::
  "TemporalMatcher \<Rightarrow> RawConversation \<Rightarrow> SourceIDE \<Rightarrow> string \<Rightarrow> string \<Rightarrow> TemporalMatcher" where
  "add_prompt m conversation source_ide project_id project_name' =
     (let effective_name =
            (if project_name conversation \<noteq> [] then project_name conversation else project_name');
          effective_id =
            (if project_path conversation \<noteq> [] then project_path conversation
             else if project_id \<noteq> [] then project_id else effective_name)
      in m\<lparr>pending_prompts :=
             pending_prompts m @ [(conversation, source_ide, effective_id, effective_name)]\<rparr>)"

definition add_file_change :: "TemporalMatcher \<Rightarrow> FileChangeEvent \<Rightarrow> TemporalMatcher" where
  "add_file_change m event = m\<lparr>file_changes := file_changes m @ [event]\<rparr>"

definition find_changes_in_window :: "TemporalMatcher \<Rightarrow> int \<Rightarrow> FileChangeEvent list" where
  "find_changes_in_window m prompt_time =
     (let window_end = prompt_time + window m
      in filter (\<lambda>c. prompt_time \<le> ev_timestamp c \<and> ev_timestamp c \<le> window_end)
           (file_changes m))"

definition path_name :: "string \<Rightarrow> string" where
  \<comment> \<open>\<open>Path(f).name\<close> on a POSIX system: the last component, where empty components and
      \<open>.\<close> do not count; empty when there is none\<close>
  "path_name f =
     (let parts = filter (\<lambda>p. p \<noteq> [] \<and> p \<noteq> ''.'') (split_on CHR ''/'' f)
      in if parts = [] then [] else last parts)"

definition ident_start :: "char \<Rightarrow> bool" where
  \<comment> \<open>the class \<open>[a-zA-Z_]\<close>\<close>
  "ident_start c = (is_ascii_letter c \<or> c = CHR ''_'')"

definition ident_char :: "char \<Rightarrow> bool" where
  \<comment> \<open>the class \<open>[a-zA-Z0-9_]\<close>\<close>
  "ident_char c = (is_ascii_letter c \<or> is_ascii_digit c \<or> c = CHR ''_'')"

function findall_ident :: "string \<Rightarrow> string list" where
  \<comment> \<open>\<open>re.findall(r"[a-zA-Z_][a-zA-Z0-9_]{2,}", text)\<close>: at each position, from left to
      right, the longest run of identifier characters that starts with a letter or an
      underscore, when it has three characters or more; the scan goes on after a match, and
      at the next character otherwise\<close>
  "findall_ident [] = []"
| "findall_ident (c # cs) =
     (if ident_start c \<and> 2 \<le> length (takeWhile ident_char cs)
      then (c # takeWhile ident_char cs) # findall_ident (dropWhile ident_char cs)
      else findall_ident cs)"
  by pat_completeness auto
termination
  by (relation "measure length") (auto simp: less_Suc_eq_le length_dropWhile_le)

definition noise :: "string list" where
  "noise = [''the'', ''and'', ''for'', ''with'', ''this'', ''that'', ''from'', ''import'',
     ''def'', ''class'', ''return'', ''self'', ''None'', ''True'', ''False'',
     ''async'', ''await'', ''function'', ''const'', ''let'', ''var'']"

definition extract_keywords :: "string \<Rightarrow> string set" where
  \<comment> \<open>\<open>_extract_keywords\<close>: \<open>set(re.findall(...)) - noise\<close>\<close>
  "extract_keywords text = set (findall_ident text) - set noise"

definition calculate_match_score ::
  "RawConversation \<Rightarrow> FileDiff list \<Rightarrow> FileChangeEvent list \<Rightarrow> real" where
  "calculate_match_score convo diffs' changes =
     (if diffs' = [] \<and> changes = [] then 0
      else
        let time_score =
              (if changes \<noteq> [] then
                 (let min_delta =
                        Min (set (map (\<lambda>c. \<bar>total_seconds (ev_timestamp c - timestamp convo)\<bar>) changes))
                  in 1 / (1 + min_delta / 10))
               else 0);
            file_score =
              (case context_files convo of
                 None \<Rightarrow> 0
               | Some cfs \<Rightarrow>
                   if cfs \<noteq> [] \<and> diffs' \<noteq> [] then
                     (let context_set = set (map path_name (filter (\<lambda>f. f \<noteq> []) cfs));
                          diff_set = set (map (\<lambda>d. path_name (file_path d))
                                       (filter (\<lambda>d. file_path d \<noteq> []) diffs'))
                      in if context_set \<noteq> {} \<and> diff_set \<noteq> {}
                         then real (card (context_set \<inter> diff_set)) / real (max (card context_set) 1)
                         else 0)
                   else 0);
            prompt_words = extract_keywords (prompt convo);
            keyword_score =
              (if prompt_words \<noteq> {} \<and> diffs' \<noteq> [] then
                 (let diff_text = join '' '' (filter (\<lambda>h. h \<noteq> []) (map hunk diffs'));
                      diff_words = extract_keywords diff_text
                  in if diff_words \<noteq> {}
                     then real (card (prompt_words \<inter> diff_words)) / real (max (card prompt_words) 1)
                     else 0)
               else 0)
        in ALPHA_TIME * time_score + BETA_FILE * file_score + GAMMA_KEYWORD * keyword_score)"

subsection \<open>Derived fields\<close>

fun sub_user_query :: "string \<Rightarrow> string" where
  \<comment> \<open>\<open>re.sub(r"</?user_query>", "", s)\<close>\<close>
  "sub_user_query [] = []"
| "sub_user_query (c # cs) =
     (if startswith (c # cs) ''<user_query>'' then sub_user_query (drop 11 cs)
      else if startswith (c # cs) ''</user_query>'' then sub_user_query (drop 12 cs)
      else c # sub_user_query cs)"

fun sub_system_reminder :: "string \<Rightarrow> string" where
  \<comment> \<open>\<open>re.sub(r"</?system_reminder>", "", s)\<close>\<close>
  "sub_system_reminder [] = []"
| "sub_system_reminder (c # cs) =
     (if startswith (c # cs) ''<system_reminder>'' then sub_system_reminder (drop 16 cs)
      else if startswith (c # cs) ''</system_reminder>'' then sub_system_reminder (drop 17 cs)
      else c # sub_system_reminder cs)"

fun sub_short_tag :: "string \<Rightarrow> string" where
  \<comment> \<open>\<open>re.sub(r"<[^>]{1,30}>", "", s)\<close>: a \<open><\<close>, then 1 to 30 characters other than \<open>>\<close>,
      then a \<open>>\<close>; a longer run has no match at this \<open><\<close>\<close>
  "sub_short_tag [] = []"
| "sub_short_tag (c # cs) =
     (let run = takeWhile (\<lambda>x. x \<noteq> CHR ''>'') cs in
      if c = CHR ''<'' \<and> 1 \<le> length run \<and> length run \<le> 30 \<and> length run < length cs
      then sub_short_tag (drop (length run + 1) cs)
      else c # sub_short_tag cs)"

function sub_spaces :: "string \<Rightarrow> string" where
  \<comment> \<open>\<open>re.sub(r"\s+", " ", s)\<close>\<close>
  "sub_spaces [] = []"
| "sub_spaces (c # cs) =
     (if isspace c then CHR '' '' # sub_spaces (dropWhile isspace cs)
      else c # sub_spaces cs)"
  by pat_completeness auto
termination
  by (relation "measure length") (auto simp: less_Suc_eq_le length_dropWhile_le)

definition filler_prefixes :: "string list" where
  \<comment> \<open>the filler phrases of \<open>_generate_clean_title\<close>, in the source's order. The source
      lists seven more, in Chinese; each holds a character above code point 255, so it is
      the prefix of no text of this model and is left out.\<close>
  "filler_prefixes = [''please '', ''help me '', ''can you '', ''i want to '', ''i need to '']"

definition generate_clean_title :: "string \<Rightarrow> string" where
  \<comment> \<open>\<open>_generate_clean_title\<close>\<close>
  "generate_clean_title prompt' =
     (let clean = strip prompt';
          clean = sub_user_query clean;
          clean = sub_system_reminder clean;
          clean = sub_short_tag clean;
          clean = strip (sub_spaces clean);
          clean = (case find (\<lambda>p. startswith (lower clean) p) filler_prefixes of
                     Some p \<Rightarrow> drop (length p) clean
                   | None \<Rightarrow> clean);
          clean = strip clean;
          clean = (case clean of [] \<Rightarrow> [] | c # cs \<Rightarrow> upper_char c @ cs)
      in if length clean > 80 then take 77 clean @ ''...'' else clean)"

fun search_thinking :: "string \<Rightarrow> string option" where
  \<comment> \<open>\<open>re.search(r"\[Thinking:?\s*(.*?)\]", s, re.DOTALL | re.IGNORECASE)\<close>, group 1: at
      the leftmost \<open>[thinking\<close> (in any case) that has a \<open>]\<close> after it, skip one colon and
      the white space, and take the text up to the first \<open>]\<close>\<close>
  "search_thinking [] = None"
| "search_thinking (c # cs) =
     (let after = drop 9 (c # cs);
          after = (if startswith after '':'' then drop 1 after else after);
          after = dropWhile isspace after
      in if lower (take 9 (c # cs)) = ''[thinking'' \<and> CHR '']'' \<in> set after
         then Some (takeWhile (\<lambda>x. x \<noteq> CHR '']'') after)
         else search_thinking cs)"

definition code_starts :: "string list" where
  "code_starts = [''```'', ''import '', ''from '', ''def '', ''class '']"

definition extract_reasoning :: "string \<Rightarrow> string" where
  \<comment> \<open>\<open>_extract_reasoning\<close>\<close>
  "extract_reasoning response' =
     (if response' = [] then []
      else
        let clean = strip response' in
        case search_thinking clean of
          Some g \<Rightarrow> take 500 (strip g)
        | None \<Rightarrow>
            (case find (\<lambda>para. length para > 30 \<and> \<not> (\<exists>p \<in> set code_starts. startswith para p))
                    (map strip (split_para clean)) of
               Some para \<Rightarrow> take 500 para
             | None \<Rightarrow> if length clean > 500 then take 500 clean else clean))"

subsection \<open>Flush\<close>

definition synthesize_diffs :: "FileChangeEvent list \<Rightarrow> FileDiff list" where
  \<comment> \<open>step 3: one entry per matched change, with an empty hunk\<close>
  "synthesize_diffs matched_changes =
     map (\<lambda>c. \<lparr>file_path = ev_file_path c, hunk = [], change_type = ev_change_type c\<rparr>)
       matched_changes"

definition acquire_diffs ::
  "GitDiffCapture option \<Rightarrow> FileChangeEvent list \<Rightarrow> exn + FileDiff list" where
  \<comment> \<open>steps 2 and 3 of the loop body; an exception of the collaborator propagates\<close>
  "acquire_diffs git_capture matched_changes =
     (case (case git_capture of
              None \<Rightarrow> Inr []
            | Some g \<Rightarrow>
                (case get_combined_diff g None of
                   Inl e \<Rightarrow> Inl e
                 | Inr ds \<Rightarrow> if ds = [] then get_unstaged_diff g else Inr ds)) of
        Inl e \<Rightarrow> Inl e
      | Inr ds \<Rightarrow>
          Inr (if ds = [] \<and> matched_changes \<noteq> [] then synthesize_diffs matched_changes else ds))"

definition match_prompt ::
  "TemporalMatcher \<Rightarrow> GitDiffCapture option \<Rightarrow> RawConversation
     \<Rightarrow> exn + (FileChangeEvent list \<times> FileDiff list \<times> real)" where
  \<comment> \<open>steps 1 to 4 of the loop body: the locals \<open>matched_changes\<close>, \<open>diffs\<close> and
      \<open>score\<close>\<close>
  "match_prompt m git_capture convo =
     (let matched_changes = find_changes_in_window m (timestamp convo) in
      case acquire_diffs git_capture matched_changes of
        Inl e \<Rightarrow> Inl e
      | Inr diffs' \<Rightarrow>
          Inr (matched_changes, diffs', calculate_match_score convo diffs' matched_changes))"

definition list_of_set :: "(string \<Rightarrow> nat) \<Rightarrow> string list \<Rightarrow> string list" where
  \<comment> \<open>\<open>list({x for x in xs})\<close>: each element once, in the iteration order of the set. That
      order follows the hashes of the strings, which Python seeds anew in every process.
      \<open>rank\<close> stands for it: the elements come by increasing rank. It is a parameter of the
      model, like the identifiers, and every order of the elements is the order of some
      \<open>rank\<close>.\<close>
  "list_of_set rank xs = sort_key rank (remdups xs)"

definition build_node ::
  "(string \<Rightarrow> nat) \<Rightarrow> string \<Rightarrow> RawConversation \<Rightarrow> SourceIDE \<Rightarrow> string \<Rightarrow> string \<Rightarrow> FileDiff list
     \<Rightarrow> PulseNode" where
  \<comment> \<open>steps 5 to 7 and the \<open>PulseNode(...)\<close> call. \<open>uid\<close> is the value \<open>uuid.uuid4()\<close>
      gives to the \<open>id\<close> field, \<open>rank\<close> the order of the set of paths. The local \<open>score\<close> is
      not an argument: the source never reads it after step 4.\<close>
  "build_node rank uid convo source_ide project_id project_name' diffs' =
     \<lparr>node_id = uid,
      node_timestamp = timestamp convo,
      node_project_id = project_id,
      node_project_name = project_name',
      source = \<lparr>ide = source_ide, sm_model_name = model_name convo,
                 sm_session_id = session_id convo\<rparr>,
      intent = \<lparr>raw_prompt = prompt convo,
                 clean_title = generate_clean_title (prompt convo),
                 intent_context_files =
                   (case context_files convo of None \<Rightarrow> [] | Some cfs \<Rightarrow> cfs)\<rparr>,
      execution = \<lparr>ai_response = response convo,
                    reasoning = extract_reasoning (response convo),
                    diffs = diffs',
                    affected_files = list_of_set rank (map file_path diffs')\<rparr>,
      status = COMPLETED,
      token_usage = 0\<rparr>"

fun flush_nodes ::
  "TemporalMatcher \<Rightarrow> GitDiffCapture option \<Rightarrow> (nat \<Rightarrow> string) \<Rightarrow> (string \<Rightarrow> nat) \<Rightarrow> nat
     \<Rightarrow> (RawConversation \<times> SourceIDE \<times> string \<times> string) list \<Rightarrow> exn + PulseNode list" where
  \<comment> \<open>the loop \<open>for convo, source_ide, project_id, project_name in self._pending_prompts\<close>;
      \<open>uuid4 i\<close> is the identifier drawn for the \<open>i\<close>-th node\<close>
  "flush_nodes m git_capture uuid4 rank i [] = Inr []"
| "flush_nodes m git_capture uuid4 rank i ((convo, source_ide, project_id, project_name') # rest) =
     (case match_prompt m git_capture convo of
        Inl e \<Rightarrow> Inl e
      | Inr (matched_changes, diffs', score) \<Rightarrow>
          (case flush_nodes m git_capture uuid4 rank (Suc i) rest of
             Inl e \<Rightarrow> Inl e
           | Inr nodes \<Rightarrow>
               Inr (build_node rank (uuid4 i) convo source_ide project_id project_name' diffs' # nodes)))"

definition flush ::
  "TemporalMatcher \<Rightarrow> GitDiffCapture option \<Rightarrow> int \<Rightarrow> (nat \<Rightarrow> string) \<Rightarrow> (string \<Rightarrow> nat)
     \<Rightarrow> (exn + PulseNode list) \<times> TemporalMatcher" where
  \<comment> \<open>\<open>flush(git_capture)\<close> at time \<open>now = datetime.utcnow()\<close>: the returned list (or the
      exception that left the loop) and the matcher afterwards. An exception leaves before
      the queue is cleared and the history pruned.\<close>
  "flush m git_capture now uuid4 rank =
     (case flush_nodes m git_capture uuid4 rank 0 (pending_prompts m) of
        Inl e \<Rightarrow> (Inl e, m)
      | Inr nodes \<Rightarrow>
          (Inr nodes,
           m\<lparr>pending_prompts := [],
             file_changes :=
               (let cutoff = now - window m * 2
                in filter (\<lambda>c. ev_timestamp c > cutoff) (file_changes m))\<rparr>))"

section \<open>Exchanges and the terminal proxy (adapters/base.py, adapters/pty_wrapper.py)\<close>

function sub_user_query_ws :: "string \<Rightarrow> string" where
  \<comment> \<open>\<open>re.sub(r"</?user_query>\s*", "", s)\<close>\<close>
  "sub_user_query_ws [] = []"
| "sub_user_query_ws (c # cs) =
     (if startswith (c # cs) ''<user_query>'' then sub_user_query_ws (dropWhile isspace (drop 11 cs))
      else if startswith (c # cs) ''</user_query>'' then sub_user_query_ws (dropWhile isspace (drop 12 cs))
      else c # sub_user_query_ws cs)"
  by pat_completeness auto
termination
  by (relation "measure length")
     (auto simp: less_Suc_eq_le intro: order_trans[OF length_dropWhile_le])

function sub_reminder_block :: "string \<Rightarrow> string" where
  \<comment> \<open>\<open>re.sub(r"</?system_reminder>.*?</system_reminder>", "", s, flags=re.DOTALL)\<close>: an
      opening or closing tag, and the text up to and including the nearest closing tag
      after it; a tag with no closing tag after it stays\<close>
  "sub_reminder_block [] = []"
| "sub_reminder_block (c # cs) =
     (let after = (if startswith (c # cs) ''<system_reminder>'' then Some (drop 16 cs)
                   else if startswith (c # cs) ''</system_reminder>'' then Some (drop 17 cs)
                   else None)
      in case after of
           None \<Rightarrow> c # sub_reminder_block cs
         | Some rest \<Rightarrow>
             (case find_sub ''</system_reminder>'' rest of
                None \<Rightarrow> c # sub_reminder_block cs
              | Some k \<Rightarrow> sub_reminder_block (drop (k + 18) rest)))"
  by pat_completeness auto
termination
  by (relation "measure length") (auto split: if_splits)

definition post_init :: "RawConversation \<Rightarrow> RawConversation" where
  \<comment> \<open>\<open>RawConversation.__post_init__\<close>, applied to the arguments of the constructor\<close>
  "post_init c =
     (let p = strip (sub_user_query_ws (prompt c));
          p = strip (sub_reminder_block p);
          r = strip (sub_reminder_block (response c))
      in c\<lparr>prompt := p, response := r\<rparr>)"











section \<open>Terms of the claims\<close>

definition repository_errors_only :: "GitDiffCapture \<Rightarrow> bool" where
  \<comment> \<open>every exception the repository layer raises is of a class in \<open>GIT_ERRORS\<close>\<close>
  "repository_errors_only g =
     ((\<forall>e. probe_commits g = Inl e \<longrightarrow> e \<in> set GIT_ERRORS)
      \<and> (\<forall>args e. git_diff g args = Inl e \<longrightarrow> e \<in> set GIT_ERRORS)
      \<and> (\<forall>e. untracked_files g = Inl e \<longrightarrow> e \<in> set GIT_ERRORS))"

definition arrival :: "RawConversation \<times> SourceIDE \<times> string \<times> string
    \<Rightarrow> int \<times> string \<times> string \<times> SourceIDE \<times> string \<times> string" where
  \<comment> \<open>what identifies a queued exchange: its time, prompt, response, source and project\<close>
  "arrival p = (case p of (c, s, pid, pn) \<Rightarrow> (timestamp c, prompt c, response c, s, pid, pn))"

definition node_arrival :: "PulseNode \<Rightarrow> int \<times> string \<times> string \<times> SourceIDE \<times> string \<times> string" where
  \<comment> \<open>the same six values, read from an output record\<close>
  "node_arrival n = (node_timestamp n, raw_prompt (intent n), ai_response (execution n),
     ide (source n), node_project_id n, node_project_name n)"

definition prune :: "TemporalMatcher \<Rightarrow> int \<Rightarrow> FileChangeEvent list" where
  \<comment> \<open>the history that is newer than \<open>now\<close> minus twice the window\<close>
  "prune m now = filter (\<lambda>c. ev_timestamp c > now - window m * 2) (file_changes m)"

definition exchange :: "int \<Rightarrow> string \<Rightarrow> string \<Rightarrow> string list option \<Rightarrow> RawConversation" where
  \<comment> \<open>\<open>RawConversation(timestamp=t, prompt=p, response=r, context_files=cfs)\<close>\<close>
  "exchange t p r cfs =
     post_init \<lparr>timestamp = t, prompt = p, response = r, model_name = [], session_id = [],
                context_files = cfs, project_name = [], project_path = []\<rparr>"

definition head_args :: "string list \<Rightarrow> string list" where
  \<comment> \<open>the arguments of the diff against \<open>HEAD\<close>\<close>
  "head_args fnames = (if fnames \<noteq> [] then [''HEAD'', ''--''] @ fnames else [''HEAD''])"

definition cached_args :: "string list \<Rightarrow> string list" where
  \<comment> \<open>the arguments of the diff of the index\<close>
  "cached_args fnames = (if fnames \<noteq> [] then [''--cached'', ''--''] @ fnames else [''--cached''])"

definition the_names :: "string list option \<Rightarrow> string list" where
  \<comment> \<open>\<open>file_paths or []\<close>\<close>
  "the_names file_paths = (case file_paths of None \<Rightarrow> [] | Some fs \<Rightarrow> fs)"

section \<open>Inputs of the witnesses and counterexamples\<close>

definition two_prompts :: TemporalMatcher where
  \<comment> \<open>a matcher with two queued exchanges and one old file change\<close>
  "two_prompts =
     add_prompt
       (add_prompt
          (add_file_change (new_matcher DEFAULT_WINDOW_SECONDS)
             \<lparr>ev_file_path = ''old.py'', ev_change_type = ''modified'', ev_timestamp = 0\<rparr>)
          (exchange 500000000 ''first request'' ''first reply'' None) CURSOR [] [])
       (exchange 600000000 ''second request'' ''second reply'' None) CLAUDECODE ''/repo'' ''repo''"

definition staged_text :: string where
  "staged_text = ''diff --git a/app.py b/app.py\<newline>new file mode 100644\<newline>--- /dev/null\<newline>+++ b/app.py\<newline>@@ -0,0 +1 @@\<newline>+print(1)''"

definition unstaged_text :: string where
  "unstaged_text = ''diff --git a/app.py b/app.py\<newline>--- a/app.py\<newline>+++ b/app.py\<newline>@@ -1 +1 @@\<newline>-print(1)\<newline>+print(2)''"

definition unborn_branch_repo :: GitDiffCapture where
  \<comment> \<open>a repository whose branch has no commit yet: the commit probe raises, the index
      holds a new file, and the working tree holds a later edit of it\<close>
  "unborn_branch_repo =
     \<lparr>probe_commits = Inl GitError,
      git_diff = (\<lambda>args. if args = [''--cached''] \<or> args = [''--cached'', ''--'', ''app.py'']
                           then Inr staged_text
                         else if args = [] \<or> args = [''--'', ''app.py''] then Inr unstaged_text
                         else Inl GitError),
      untracked_files = Inr []\<rparr>"

definition staged_only_repo :: GitDiffCapture where
  \<comment> \<open>a repository whose branch has no commit yet, with a new file in the index and a
      working tree equal to the index: the commit probe raises, the diff of the index shows
      the file, and every other diff is empty\<close>
  "staged_only_repo =
     \<lparr>probe_commits = Inl GitError,
      git_diff = (\<lambda>args. if args = [''--cached''] then Inr staged_text
                         else if args = [''--name-only'', ''--cached''] then Inr ''app.py\<newline>''
                         else Inr []),
      untracked_files = Inr []\<rparr>"

definition broken_repo :: GitDiffCapture where
  \<comment> \<open>a repository layer in which every call raises\<close>
  "broken_repo =
     \<lparr>probe_commits = Inl InvalidGitRepositoryError,
      git_diff = (\<lambda>args. Inl GitCommandNotFound),
      untracked_files = Inl OSError\<rparr>"

subsection \<open>The score, in the words of the specification\<close>

definition declared_names :: "string list option \<Rightarrow> string set" where
  \<comment> \<open>the file names of the declared context files\<close>
  "declared_names cfs =
     (case cfs of None \<Rightarrow> {} | Some fs \<Rightarrow> path_name ` {f \<in> set fs. f \<noteq> []})"

definition diff_names :: "FileDiff list \<Rightarrow> string set" where
  \<comment> \<open>the file names of the paths of the diffs\<close>
  "diff_names ds = path_name ` {p \<in> file_path ` set ds. p \<noteq> []}"

definition hunk_tokens :: "FileDiff list \<Rightarrow> string set" where
  \<comment> \<open>the tokens of the hunks of the diffs\<close>
  "hunk_tokens ds = (\<Union>d \<in> set ds. extract_keywords (hunk d))"

definition spec_time_score :: "int \<Rightarrow> FileChangeEvent list \<Rightarrow> real" where
  \<comment> \<open>\<open>1 / (1 + delta / 10)\<close>, with \<open>delta\<close> the least distance in seconds between the
      exchange and a candidate change; 0 without candidates\<close>
  "spec_time_score t changes =
     (if changes = [] then 0
      else 1 / (1 + Min ((\<lambda>c. \<bar>total_seconds (ev_timestamp c - t)\<bar>) ` set changes) / 10))"

definition spec_file_score :: "string list option \<Rightarrow> FileDiff list \<Rightarrow> real" where
  "spec_file_score cfs ds =
     (if declared_names cfs = {} \<or> diff_names ds = {} then 0
      else real (card (declared_names cfs \<inter> diff_names ds)) / real (max 1 (card (declared_names cfs))))"

definition spec_keyword_score :: "string \<Rightarrow> FileDiff list \<Rightarrow> real" where
  "spec_keyword_score p ds =
     (if extract_keywords p = {} \<or> hunk_tokens ds = {} then 0
      else real (card (extract_keywords p \<inter> hunk_tokens ds)) / real (max 1 (card (extract_keywords p))))"

subsection \<open>The end-to-end scenario of the specification\<close>

definition scenario_exchange :: "int \<Rightarrow> RawConversation" where
  "scenario_exchange t0 =
     exchange t0 ''please fix the login bug''
       ''I updated auth.js to fix the null check. [Thinking: the null check was backwards]''
       (Some [''auth.js''])"

definition scenario_matcher :: "int \<Rightarrow> int \<Rightarrow> TemporalMatcher" where
  \<comment> \<open>the exchange at \<open>t0\<close>, queued, and one change \<open>dt\<close> seconds later\<close>
  "scenario_matcher t0 dt =
     add_file_change
       (add_prompt (new_matcher DEFAULT_WINDOW_SECONDS) (scenario_exchange t0) CLAUDECODE [] [])
       \<lparr>ev_file_path = ''src/auth.js'', ev_change_type = ''modified'',
        ev_timestamp = t0 + timedelta_seconds dt\<rparr>"

definition scenario_repo :: GitDiffCapture where
  \<comment> \<open>a repository with commits whose diff against \<open>HEAD\<close> is the diff of the scenario\<close>
  "scenario_repo =
     \<lparr>probe_commits = Inr True,
      git_diff = (\<lambda>args. Inr ''diff --git a/src/auth.js b/src/auth.js\<newline>@@ ... - if (user) ... + if (!user) ...''),
      untracked_files = Inr []\<rparr>"

definition scenario_diff :: FileDiff where
  "scenario_diff = \<lparr>file_path = ''src/auth.js'',
     hunk = ''@@ ... - if (user) ... + if (!user) ...'', change_type = ''modified''\<rparr>"

subsection \<open>Terms of the terminal proxy's boundary rule\<close>


definition raw_exchange :: "int \<Rightarrow> string \<Rightarrow> string \<Rightarrow> RawConversation" where
  \<comment> \<open>\<open>RawConversation(timestamp=t, prompt=p, response=r)\<close>\<close>
  "raw_exchange t p r = exchange t p r None"



section \<open>Properties of the text helpers\<close>

lemma split_on_not_Nil [simp]: "split_on c s \<noteq> []"
  by (induction s) (auto split: list.splits)

lemma split_on_Cons [simp]:
  "split_on c (x # xs) =
     (if x = c then [] # split_on c xs else (x # hd (split_on c xs)) # tl (split_on c xs))"
  by (cases "split_on c xs") (use split_on_not_Nil in auto)

declare split_on.simps(2) [simp del]

lemma split_on_append_sep: "split_on c (a @ c # b) = split_on c a @ split_on c b"
proof (induction a)
  case Nil
  show ?case by simp
next
  case (Cons x a)
  show ?case
  proof (cases "x = c")
    case True
    then show ?thesis using Cons.IH by simp
  next
    case False
    have "hd (split_on c a @ split_on c b) = hd (split_on c a)" by simp
    moreover have "tl (split_on c a @ split_on c b) = tl (split_on c a) @ split_on c b" by simp
    ultimately show ?thesis using False Cons.IH by simp
  qed
qed

lemma split_on_cases:
  assumes "l \<in> set (split_on c (x # s))" "x \<noteq> c"
  shows "(\<exists>l'. l' \<in> set (split_on c s) \<and> l = x # l') \<or> l \<in> set (split_on c s)"
proof -
  have ne: "split_on c s \<noteq> []" by simp
  from assms have "l = x # hd (split_on c s) \<or> l \<in> set (tl (split_on c s))" by simp
  then show ?thesis
  proof
    assume "l = x # hd (split_on c s)"
    moreover have "hd (split_on c s) \<in> set (split_on c s)" using ne by (rule hd_in_set)
    ultimately show ?thesis by blast
  next
    assume "l \<in> set (tl (split_on c s))"
    then have "l \<in> set (split_on c s)" by (rule list.set_sel(2)[OF ne])
    then show ?thesis by blast
  qed
qed

lemma split_on_line_chars: "l \<in> set (split_on c s) \<Longrightarrow> set l \<subseteq> set s"
proof (induction s arbitrary: l)
  case Nil
  then show ?case by simp
next
  case (Cons x s)
  show ?case
  proof (cases "x = c")
    case True
    with Cons.prems have "l = [] \<or> l \<in> set (split_on c s)" by simp
    then show ?thesis using Cons.IH by auto
  next
    case False
    from split_on_cases[OF Cons.prems False] show ?thesis
    proof
      assume "\<exists>l'. l' \<in> set (split_on c s) \<and> l = x # l'"
      then obtain l' where l': "l' \<in> set (split_on c s)" and l: "l = x # l'" by blast
      from Cons.IH[OF l'] l show ?thesis by auto
    next
      assume "l \<in> set (split_on c s)"
      from Cons.IH[OF this] show ?thesis by auto
    qed
  qed
qed

lemma split_on_no_sep: "l \<in> set (split_on c s) \<Longrightarrow> c \<notin> set l"
proof (induction s arbitrary: l)
  case Nil
  then show ?case by simp
next
  case (Cons x s)
  show ?case
  proof (cases "x = c")
    case True
    with Cons.prems have "l = [] \<or> l \<in> set (split_on c s)" by simp
    then show ?thesis using Cons.IH by auto
  next
    case False
    from split_on_cases[OF Cons.prems False] show ?thesis
    proof
      assume "\<exists>l'. l' \<in> set (split_on c s) \<and> l = x # l'"
      then obtain l' where l': "l' \<in> set (split_on c s)" and l: "l = x # l'" by blast
      from Cons.IH[OF l'] l False show ?thesis by auto
    next
      assume "l \<in> set (split_on c s)"
      from Cons.IH[OF this] show ?thesis .
    qed
  qed
qed

lemma hd_split_on_prefix: "c \<notin> set p \<Longrightarrow> prefix p s \<Longrightarrow> prefix p (hd (split_on c s))"
proof (induction p arbitrary: s)
  case Nil
  show ?case by simp
next
  case (Cons a p)
  from Cons.prems(2) obtain s' where s: "s = a # s'" and p: "prefix p s'"
    by (cases s) auto
  from Cons.prems(1) have ac: "a \<noteq> c" and cp: "c \<notin> set p" by auto
  from Cons.IH[OF cp p] have "prefix p (hd (split_on c s'))" .
  with s ac show ?case by simp
qed

lemma split_on_single: "c \<notin> set x \<Longrightarrow> split_on c x = [x]"
  by (induction x) auto

lemma split_join: "ls \<noteq> [] \<Longrightarrow> \<forall>l \<in> set ls. c \<notin> set l \<Longrightarrow> split_on c (join [c] ls) = ls"
proof (induction ls rule: induct_list012)
  case 1
  then show ?case by simp
next
  case (2 x)
  then show ?case by (simp add: split_on_single)
next
  case (3 x y ys)
  have "split_on c (join [c] (x # y # ys)) = split_on c (x @ c # join [c] (y # ys))" by simp
  also have "\<dots> = split_on c x @ split_on c (join [c] (y # ys))" by (rule split_on_append_sep)
  also have "split_on c (join [c] (y # ys)) = y # ys" using 3 by simp
  also have "split_on c x = [x]" using 3(4) by (simp add: split_on_single)
  finally show ?case by simp
qed

lemma strip_Nil_iff: "strip s = [] \<longleftrightarrow> (\<forall>c \<in> set s. isspace c)"
proof
  assume "strip s = []"
  then have "dropWhile isspace (rev (dropWhile isspace s)) = []" by (simp only: strip_def rev_is_Nil_conv)
  then have all: "\<forall>c \<in> set (rev (dropWhile isspace s)). isspace c" by (simp only: dropWhile_eq_Nil_conv)
  have "dropWhile isspace s = []"
  proof (rule ccontr)
    assume ne: "dropWhile isspace s \<noteq> []"
    then have "\<not> isspace (hd (dropWhile isspace s))" by (rule hd_dropWhile)
    moreover have "hd (dropWhile isspace s) \<in> set (rev (dropWhile isspace s))" using ne by simp
    ultimately show False using all by blast
  qed
  then show "\<forall>c \<in> set s. isspace c" by (simp only: dropWhile_eq_Nil_conv)
next
  assume "\<forall>c \<in> set s. isspace c"
  then have "dropWhile isspace s = []" by (simp only: dropWhile_eq_Nil_conv)
  then show "strip s = []" by (simp only: strip_def rev.simps dropWhile.simps)
qed

section \<open>Properties of the parsers\<close>

lemma step_not_boundary:
  "\<not> is_boundary l \<Longrightarrow> parse_line_with ex rn st l =
     st\<lparr>current_lines := current_lines st @ (if current_file st \<noteq> [] \<and> accumulates rn l then [l] else []),
        cur_change_type := next_kind rn (cur_change_type st) l\<rparr>"
  by (simp add: parse_line_with_def is_boundary_def accumulates_def next_kind_def)

lemma fold_no_boundary:
  "\<forall>l \<in> set ls. \<not> is_boundary l \<Longrightarrow> foldl (parse_line_with ex rn) st ls =
     st\<lparr>current_lines := current_lines st @ (if current_file st \<noteq> [] then filter (accumulates rn) ls else []),
        cur_change_type := foldl (next_kind rn) (cur_change_type st) ls\<rparr>"
proof (induction ls arbitrary: st)
  case Nil
  then show ?case by simp
next
  case (Cons l ls)
  have nb: "\<not> is_boundary l" and rest: "\<forall>l \<in> set ls. \<not> is_boundary l" using Cons.prems by simp_all
  have "foldl (parse_line_with ex rn) st (l # ls) = foldl (parse_line_with ex rn) (parse_line_with ex rn st l) ls"
    by simp
  also have "\<dots> = (parse_line_with ex rn st l)\<lparr>current_lines := current_lines (parse_line_with ex rn st l) @ (if current_file (parse_line_with ex rn st l) \<noteq> [] then filter (accumulates rn) ls else []),
        cur_change_type := foldl (next_kind rn) (cur_change_type (parse_line_with ex rn st l)) ls\<rparr>"
    by (rule Cons.IH[OF rest])
  also have "\<dots> = st\<lparr>current_lines := current_lines st @ (if current_file st \<noteq> [] then filter (accumulates rn) (l # ls) else []),
        cur_change_type := foldl (next_kind rn) (cur_change_type st) (l # ls)\<rparr>"
    unfolding step_not_boundary[OF nb] by simp
  finally show ?case .
qed


lemma step_boundary:
  "is_boundary l \<Longrightarrow> parse_line_with ex rn st l =
     \<lparr>results = close_file st, current_file = ex l, current_lines = [], cur_change_type = ''modified''\<rparr>"
  by (simp add: parse_line_with_def is_boundary_def)

lemma close_section:
  assumes "is_boundary m" "\<forall>l \<in> set body. \<not> is_boundary l"
  shows "close_file (foldl (parse_line_with ex rn) st (m # body)) =
         close_file st @ (case section_diff ex rn (m, body) of None \<Rightarrow> [] | Some d \<Rightarrow> [d])"
proof -
  let ?st1 = "\<lparr>results = close_file st, current_file = ex m, current_lines = [], cur_change_type = ''modified''\<rparr>"
  have "foldl (parse_line_with ex rn) st (m # body) = foldl (parse_line_with ex rn) ?st1 body"
    by (simp add: step_boundary[OF assms(1)])
  also have "\<dots> = ?st1\<lparr>current_lines := current_lines ?st1 @ (if current_file ?st1 \<noteq> [] then filter (accumulates rn) body else []),
        cur_change_type := foldl (next_kind rn) (cur_change_type ?st1) body\<rparr>"
    by (rule fold_no_boundary[OF assms(2)])
  finally show ?thesis
    by (simp add: close_file_def section_diff_def Let_def)
qed

lemma takeWhile_dropWhile_Nil: "takeWhile P (dropWhile P xs) = []"
  by (induction xs) auto

lemma sections_fold:
  "close_file (foldl (parse_line_with ex rn) st ls) =
   close_file (foldl (parse_line_with ex rn) st (takeWhile (\<lambda>x. \<not> is_boundary x) ls))
     @ List.map_filter (section_diff ex rn) (sections ls)"
proof (induction ls arbitrary: st rule: sections.induct)
  case 1
  then show ?case by (simp add: List.map_filter_simps)
next
  case (2 l ls)
  let ?nb = "\<lambda>x. \<not> is_boundary x"
  let ?step = "parse_line_with ex rn"
  show ?case
  proof (cases "is_boundary l")
    case True
    let ?T = "takeWhile ?nb ls" and ?D = "dropWhile ?nb ls"
    have split: "l # ls = (l # ?T) @ ?D" by simp
    have "close_file (foldl ?step st (l # ls))
        = close_file (foldl ?step (foldl ?step st (l # ?T)) ?D)"
      by (subst split) (simp only: foldl_append)
    also have "\<dots> = close_file (foldl ?step (foldl ?step st (l # ?T)) (takeWhile ?nb ?D))
         @ List.map_filter (section_diff ex rn) (sections ?D)"
      by (rule "2.IH"(1)[OF True])
    also have "takeWhile ?nb ?D = []" by (rule takeWhile_dropWhile_Nil)
    also have "close_file (foldl ?step (foldl ?step st (l # ?T)) []) = close_file (foldl ?step st (l # ?T))"
      by simp
    also have "close_file (foldl ?step st (l # ?T))
       = close_file st @ (case section_diff ex rn (l, ?T) of None \<Rightarrow> [] | Some d \<Rightarrow> [d])"
      by (rule close_section[OF True]) (auto dest: set_takeWhileD)
    finally have "close_file (foldl ?step st (l # ls)) =
       (close_file st @ (case section_diff ex rn (l, ?T) of None \<Rightarrow> [] | Some d \<Rightarrow> [d]))
         @ List.map_filter (section_diff ex rn) (sections ?D)" .
    moreover have "takeWhile ?nb (l # ls) = []" using True by simp
    moreover have "sections (l # ls) = (l, ?T) # sections ?D" using True by simp
    ultimately show ?thesis
      by (simp add: List.map_filter_simps split: option.splits)
  next
    case False
    have "close_file (foldl ?step st (l # ls)) = close_file (foldl ?step (?step st l) ls)" by simp
    also have "\<dots> = close_file (foldl ?step (?step st l) (takeWhile ?nb ls))
        @ List.map_filter (section_diff ex rn) (sections ls)"
      by (rule "2.IH"(2)[OF False])
    finally show ?thesis using False by simp
  qed
qed

lemma parser_init_simps [simp]:
  "results parser_init = []" "current_file parser_init = []" "current_lines parser_init = []"
  "cur_change_type parser_init = ''modified''"
  by (simp_all add: parser_init_def)

lemma preamble_empty:
  assumes "\<forall>l \<in> set ls. \<not> is_boundary l"
  shows "close_file (foldl (parse_line_with ex rn) parser_init ls) = []"
  by (simp add: fold_no_boundary[OF assms] close_file_def)

lemma parse_lines_sections:
  "parse_lines_with ex rn ls = List.map_filter (section_diff ex rn) (sections ls)"
proof -
  have "\<forall>l \<in> set (takeWhile (\<lambda>x. \<not> is_boundary x) ls). \<not> is_boundary l"
    by (auto dest: set_takeWhileD)
  from preamble_empty[OF this] show ?thesis
    unfolding parse_lines_with_def by (subst sections_fold) simp
qed

lemma boundary_first_char: "is_boundary l \<Longrightarrow> CHR ''d'' \<in> set l"
  by (cases l) (simp_all add: is_boundary_def startswith_def)

lemma not_isspace_d: "\<not> isspace CHR ''d''"
  by (simp add: isspace_def whitespace_def)

lemma blank_no_boundary:
  assumes "strip raw = []" "l \<in> set (split_on c raw)"
  shows "\<not> is_boundary l"
proof
  assume "is_boundary l"
  then have "CHR ''d'' \<in> set l" by (rule boundary_first_char)
  then have "CHR ''d'' \<in> set raw" using split_on_line_chars[OF assms(2)] by blast
  moreover from assms(1) have "\<forall>c \<in> set raw. isspace c" by (simp only: strip_Nil_iff)
  ultimately show False using not_isspace_d by blast
qed

lemma strip_Nil [simp]: "strip [] = []"
  by (simp add: strip_def)

lemma parse_unified_diff_lines:
  "parse_unified_diff raw = parse_lines_with core_path ''rename from'' (split_on CHR 0x0A raw)"
proof (cases "strip raw = []")
  case True
  then have "\<forall>l \<in> set (split_on CHR 0x0A raw). \<not> is_boundary l"
    using blank_no_boundary by blast
  from preamble_empty[OF this] True show ?thesis
    by (simp only: parse_unified_diff_def parse_lines_with_def simp_thms if_True)
next
  case False
  then have "raw \<noteq> []" by auto
  with False show ?thesis by (simp only: parse_unified_diff_def simp_thms if_False)
qed

lemma observer_parse_unified_diff_lines:
  "observer_parse_unified_diff raw = parse_lines_with observer_path ''rename'' (split_on CHR 0x0A raw)"
proof (cases "strip raw = []")
  case True
  then have "\<forall>l \<in> set (split_on CHR 0x0A raw). \<not> is_boundary l"
    using blank_no_boundary by blast
  from preamble_empty[OF this] True show ?thesis
    by (simp only: observer_parse_unified_diff_def parse_lines_with_def simp_thms if_True)
next
  case False
  then show ?thesis by (simp only: observer_parse_unified_diff_def if_False)
qed

lemma step_empty_line: "rn \<noteq> [] \<Longrightarrow> parse_line_with ex rn st [] = st"
  by (simp add: parse_line_with_def startswith_def is_hunk_line_def)

lemma parse_lines_snoc_empty:
  "rn \<noteq> [] \<Longrightarrow> parse_lines_with ex rn (ls @ [[]]) = parse_lines_with ex rn ls"
  by (simp add: parse_lines_with_def step_empty_line)

lemma parse_lines_append_boundary:
  assumes "is_boundary m"
  shows "parse_lines_with ex rn (A @ m # B) = parse_lines_with ex rn A @ parse_lines_with ex rn (m # B)"
proof -
  let ?step = "parse_line_with ex rn"
  have tw: "takeWhile (\<lambda>x. \<not> is_boundary x) (m # B) = []" using assms by simp
  have a: "close_file (foldl ?step (foldl ?step parser_init A) []) = parse_lines_with ex rn A"
    by (simp add: parse_lines_with_def)
  have b: "List.map_filter (section_diff ex rn) (sections (m # B)) = parse_lines_with ex rn (m # B)"
    by (rule parse_lines_sections[symmetric])
  have "parse_lines_with ex rn (A @ m # B) = close_file (foldl ?step (foldl ?step parser_init A) (m # B))"
    by (simp only: parse_lines_with_def foldl_append)
  also have "\<dots> = close_file (foldl ?step (foldl ?step parser_init A) (takeWhile (\<lambda>x. \<not> is_boundary x) (m # B)))
       @ List.map_filter (section_diff ex rn) (sections (m # B))"
    by (rule sections_fold)
  also have "\<dots> = parse_lines_with ex rn A @ parse_lines_with ex rn (m # B)"
    by (simp only: tw a b)
  finally show ?thesis .
qed

lemma parse_lines_concat:
  assumes rn: "rn \<noteq> []" and d1: "d1 = [] \<or> last d1 = CHR 0x0A"
    and d2: "d2 = [] \<or> startswith d2 ''diff --git''"
  shows "parse_lines_with ex rn (split_on CHR 0x0A (d1 @ d2))
       = parse_lines_with ex rn (split_on CHR 0x0A d1) @ parse_lines_with ex rn (split_on CHR 0x0A d2)"
proof -
  have empty: "parse_lines_with ex rn (split_on CHR 0x0A []) = []"
    using rn by (simp add: parse_lines_with_def step_empty_line close_file_def)
  show ?thesis
  proof (cases "d1 = [] \<or> d2 = []")
    case True
    then show ?thesis using empty by auto
  next
    case False
    with d1 d2 have l1: "last d1 = CHR 0x0A" and ne1: "d1 \<noteq> []"
      and b2: "startswith d2 ''diff --git''" by auto
    from ne1 l1 have d1eq: "d1 = butlast d1 @ [CHR 0x0A]" by (metis append_butlast_last_id)
    let ?L = "split_on CHR 0x0A"
    have "CHR 0x0A \<notin> set ''diff --git''" by simp
    moreover have "prefix ''diff --git'' d2" using b2 by (simp only: startswith_def)
    ultimately have "prefix ''diff --git'' (hd (?L d2))" by (rule hd_split_on_prefix)
    then have hb: "is_boundary (hd (?L d2))" by (simp only: is_boundary_def startswith_def)
    have L2: "?L d2 = hd (?L d2) # tl (?L d2)" by simp
    have "?L (d1 @ d2) = ?L (butlast d1 @ CHR 0x0A # d2)" by (subst d1eq) simp
    also have "\<dots> = ?L (butlast d1) @ ?L d2" by (rule split_on_append_sep)
    finally have cat: "?L (d1 @ d2) = ?L (butlast d1) @ hd (?L d2) # tl (?L d2)" using L2 by simp
    have "?L d1 = ?L (butlast d1 @ CHR 0x0A # [])" by (subst d1eq) simp
    also have "\<dots> = ?L (butlast d1) @ ?L []" by (rule split_on_append_sep)
    finally have L1: "?L d1 = ?L (butlast d1) @ [[]]" by simp
    have "parse_lines_with ex rn (?L (d1 @ d2))
        = parse_lines_with ex rn (?L (butlast d1)) @ parse_lines_with ex rn (hd (?L d2) # tl (?L d2))"
      unfolding cat by (rule parse_lines_append_boundary[OF hb])
    also have "parse_lines_with ex rn (?L (butlast d1)) = parse_lines_with ex rn (?L d1)"
      unfolding L1 by (rule parse_lines_snoc_empty[OF rn, symmetric])
    finally show ?thesis using L2 by simp
  qed
qed

lemma startswith_hd: "startswith l (c # p) \<Longrightarrow> l \<noteq> [] \<and> hd l = c"
  by (cases l) (simp_all add: startswith_def)

lemma hunk_line_hd:
  assumes "is_hunk_line l"
  shows "l \<noteq> [] \<and> (hd l = CHR ''@'' \<or> hd l = CHR ''+'' \<or> hd l = CHR ''-'' \<or> hd l = CHR '' '')"
proof -
  from assms consider "startswith l ''@@''" | "startswith l ''+''" | "startswith l ''-''" | "startswith l '' ''"
    unfolding is_hunk_line_def by blast
  then show ?thesis
    by cases (use startswith_hd in blast)+
qed

lemma hunk_line_not_meta:
  assumes "is_hunk_line l" "c \<noteq> CHR ''@''" "c \<noteq> CHR ''+''" "c \<noteq> CHR ''-''" "c \<noteq> CHR '' ''"
  shows "\<not> startswith l (c # p)"
proof
  assume "startswith l (c # p)"
  then have "hd l = c" using startswith_hd by blast
  with hunk_line_hd[OF assms(1)] assms(2-5) show False by blast
qed

lemma accumulates_rename_from: "accumulates ''rename from'' l = is_hunk_line l"
proof (cases "is_hunk_line l")
  case True
  have "\<not> startswith l ''new file''" by (rule hunk_line_not_meta[OF True]) simp_all
  moreover have "\<not> startswith l ''deleted file''" by (rule hunk_line_not_meta[OF True]) simp_all
  moreover have "\<not> startswith l ''rename from''" by (rule hunk_line_not_meta[OF True]) simp_all
  ultimately show ?thesis using True by (simp only: accumulates_def simp_thms)
next
  case False
  then show ?thesis by (simp only: accumulates_def simp_thms)
qed

lemma accumulates_rename: "accumulates ''rename'' l = is_hunk_line l"
proof (cases "is_hunk_line l")
  case True
  have "\<not> startswith l ''new file''" by (rule hunk_line_not_meta[OF True]) simp_all
  moreover have "\<not> startswith l ''deleted file''" by (rule hunk_line_not_meta[OF True]) simp_all
  moreover have "\<not> startswith l ''rename''" by (rule hunk_line_not_meta[OF True]) simp_all
  ultimately show ?thesis using True by (simp only: accumulates_def simp_thms)
next
  case False
  then show ?thesis by (simp only: accumulates_def simp_thms)
qed

lemma filter_boundary_dropWhile:
  "filter is_boundary (dropWhile (\<lambda>x. \<not> is_boundary x) ls) = filter is_boundary ls"
  by (induction ls) auto

lemma map_fst_sections: "map fst (sections ls) = filter is_boundary ls"
proof (induction ls rule: sections.induct)
  case 1
  show ?case by simp
next
  case (2 l ls)
  show ?case
  proof (cases "is_boundary l")
    case True
    with "2.IH"(1) show ?thesis by (simp add: filter_boundary_dropWhile)
  next
    case False
    with "2.IH"(2) show ?thesis by simp
  qed
qed

lemma length_sections: "length (sections ls) = length (filter is_boundary ls)"
  by (metis length_map map_fst_sections)

lemma file_header_hunk_line: "is_file_header l \<Longrightarrow> is_hunk_line l"
  by (cases l) (auto simp: is_file_header_def is_hunk_line_def startswith_def)

lemma file_header_hd: "is_file_header l \<Longrightarrow> l \<noteq> [] \<and> (hd l = CHR ''-'' \<or> hd l = CHR ''+'')"
  unfolding is_file_header_def using startswith_hd by blast

lemma file_header_not_boundary: "is_file_header l \<Longrightarrow> \<not> is_boundary l"
proof
  assume h: "is_file_header l" and "is_boundary l"
  then have "hd l = CHR ''d''" unfolding is_boundary_def using startswith_hd by blast
  with file_header_hd[OF h] show False by auto
qed

lemma hunk_line_keeps_kind:
  assumes "is_hunk_line l" "rn = ''rename from'' \<or> rn = ''rename''"
  shows "next_kind rn k l = k"
proof -
  have "\<not> startswith l ''new file''" by (rule hunk_line_not_meta[OF assms(1)]) simp_all
  moreover have "\<not> startswith l ''deleted file''" by (rule hunk_line_not_meta[OF assms(1)]) simp_all
  moreover have "\<not> startswith l ''rename from''" by (rule hunk_line_not_meta[OF assms(1)]) simp_all
  moreover have "\<not> startswith l ''rename''" by (rule hunk_line_not_meta[OF assms(1)]) simp_all
  ultimately show ?thesis using assms(2) by (auto simp: next_kind_def)
qed

lemma accumulates_hunk:
  assumes "rn = ''rename from'' \<or> rn = ''rename''"
  shows "accumulates rn l = is_hunk_line l"
  using assms accumulates_rename accumulates_rename_from by blast

lemma header_appended:
  assumes rn: "rn = ''rename from'' \<or> rn = ''rename''"
    and "current_file st \<noteq> []" "is_file_header l"
  shows "parse_line_with ex rn st l = st\<lparr>current_lines := current_lines st @ [l]\<rparr>"
proof -
  have hl: "is_hunk_line l" using assms(3) by (rule file_header_hunk_line)
  have "parse_line_with ex rn st l =
     st\<lparr>current_lines := current_lines st @ (if current_file st \<noteq> [] \<and> accumulates rn l then [l] else []),
        cur_change_type := next_kind rn (cur_change_type st) l\<rparr>"
    by (rule step_not_boundary[OF file_header_not_boundary[OF assms(3)]])
  then show ?thesis
    using assms(2) hl by (simp add: accumulates_hunk[OF rn] hunk_line_keeps_kind[OF hl rn])
qed

lemma foldl_keeps_kind:
  assumes "\<forall>l \<in> set hs. is_hunk_line l" "rn = ''rename from'' \<or> rn = ''rename''"
  shows "foldl (next_kind rn) k hs = k"
  using assms(1) by (induction hs) (simp_all add: hunk_line_keeps_kind[OF _ assms(2)])

lemma headers_only_section:
  assumes rn: "rn = ''rename from'' \<or> rn = ''rename''"
    and m: "is_boundary m" "ex m \<noteq> []" "CHR 0x0A \<notin> set m"
    and hs: "hs \<noteq> []" "\<forall>l \<in> set hs. is_file_header l \<and> CHR 0x0A \<notin> set l"
  shows "parse_lines_with ex rn (split_on CHR 0x0A (join ''\<newline>'' (m # hs)))
       = [\<lparr>file_path = ex m, hunk = join ''\<newline>'' hs, change_type = ''modified''\<rparr>]"
proof -
  have lines: "split_on CHR 0x0A (join ''\<newline>'' (m # hs)) = m # hs"
    by (rule split_join) (use m hs in auto)
  have nb: "\<forall>l \<in> set hs. \<not> is_boundary l" using hs file_header_not_boundary by blast
  have hl: "\<forall>l \<in> set hs. is_hunk_line l" using hs file_header_hunk_line by blast
  have acc: "filter (accumulates rn) hs = hs"
    using hl by (simp add: accumulates_hunk[OF rn])
  have sd: "section_diff ex rn (m, hs)
      = Some \<lparr>file_path = ex m, hunk = join ''\<newline>'' hs, change_type = ''modified''\<rparr>"
    using m(2) hs(1) by (simp add: section_diff_def acc foldl_keeps_kind[OF hl rn])
  have "parse_lines_with ex rn (m # hs) = close_file parser_init
      @ (case section_diff ex rn (m, hs) of None \<Rightarrow> [] | Some d \<Rightarrow> [d])"
    unfolding parse_lines_with_def by (rule close_section[OF m(1) nb])
  also have "close_file parser_init = []" by (simp add: close_file_def)
  finally show ?thesis by (simp add: lines sd)
qed

lemma section_lines_no_newline:
  assumes "s \<in> set (sections ls)" "\<forall>l \<in> set ls. c \<notin> set l"
  shows "\<forall>l \<in> set (snd s). c \<notin> set l"
  using assms
proof (induction ls rule: sections.induct)
  case 1
  then show ?case by simp
next
  case (2 l ls)
  show ?case
  proof (cases "is_boundary l")
    case True
    from "2.prems"(1) True consider "s = (l, takeWhile (\<lambda>x. \<not> is_boundary x) ls)"
      | "s \<in> set (sections (dropWhile (\<lambda>x. \<not> is_boundary x) ls))" by auto
    then show ?thesis
    proof cases
      case 1
      then show ?thesis using "2.prems"(2) by (auto dest: set_takeWhileD)
    next
      case 2
      moreover have "\<forall>l \<in> set (dropWhile (\<lambda>x. \<not> is_boundary x) ls). c \<notin> set l"
        using "2.prems"(2) by (auto dest: set_dropWhileD)
      ultimately show ?thesis using "2.IH"(1)[OF True] by blast
    qed
  next
    case False
    with "2.prems" "2.IH"(2)[OF False] show ?thesis by simp
  qed
qed

lemma section_hunk_has_headers:
  assumes rn: "rn = ''rename from'' \<or> rn = ''rename''"
    and s: "s \<in> set (sections (split_on CHR 0x0A raw))"
    and d: "section_diff ex rn s = Some d"
    and l: "l \<in> set (snd s)" "is_file_header l"
  shows "l \<in> set (split_on CHR 0x0A (hunk d))"
proof -
  let ?acc = "filter (accumulates rn) (snd s)"
  from d have ne: "?acc \<noteq> []" and h: "hunk d = join ''\<newline>'' ?acc"
    by (auto simp: section_diff_def Let_def split: if_splits)
  have "\<forall>l \<in> set (split_on CHR 0x0A raw). CHR 0x0A \<notin> set l" using split_on_no_sep by blast
  from section_lines_no_newline[OF s this] have "\<forall>l \<in> set ?acc. CHR 0x0A \<notin> set l" by simp
  with ne have "split_on CHR 0x0A (join ''\<newline>'' ?acc) = ?acc" by (intro split_join) 
  moreover have "l \<in> set ?acc"
    using l file_header_hunk_line by (simp add: accumulates_hunk[OF rn])
  ultimately show ?thesis using h by simp
qed

lemma map_filter_all_Some:
  assumes "\<forall>s \<in> set xs. \<exists>d. f s = Some d \<and> p d = g s"
  shows "map p (List.map_filter f xs) = map g xs"
  using assms by (induction xs) (auto simp: List.map_filter_simps)

lemma in_map_filterD: "d \<in> set (List.map_filter f xs) \<Longrightarrow> \<exists>s \<in> set xs. f s = Some d"
  by (induction xs) (auto simp: List.map_filter_simps split: option.splits)

lemma section_diff_Some:
  assumes "ex (fst s) \<noteq> []" "\<exists>l \<in> set (snd s). accumulates rn l"
  shows "\<exists>d. section_diff ex rn s = Some d \<and> file_path d = ex (fst s)"
proof -
  from assms(2) have "filter (accumulates rn) (snd s) \<noteq> []" by (simp add: filter_empty_conv)
  with assms(1) show ?thesis by (simp add: section_diff_def)
qed

lemma section_diff_None:
  assumes "\<forall>l \<in> set (snd s). \<not> accumulates rn l"
  shows "section_diff ex rn s = None"
proof -
  from assms have "filter (accumulates rn) (snd s) = []" by (simp add: filter_empty_conv)
  then show ?thesis by (simp add: section_diff_def)
qed


lemma header_line_step:
  assumes cf: "current_file st \<noteq> []" and fh: "is_file_header l"
  shows "parse_line_with core_path ''rename from'' st l = st\<lparr>current_lines := current_lines st @ [l]\<rparr>"
    and "parse_line_with observer_path ''rename'' st l = st\<lparr>current_lines := current_lines st @ [l]\<rparr>"
  by (rule header_appended[OF _ cf fh], simp)+

lemma headers_only_parse:
  assumes a: "is_boundary m" "CHR 0x0A \<notin> set m" "hs \<noteq> []" "\<forall>h \<in> set hs. is_file_header h \<and> CHR 0x0A \<notin> set h"
  shows "core_path m \<noteq> [] \<Longrightarrow> parse_unified_diff (join ''\<newline>'' (m # hs))
            = [\<lparr>file_path = core_path m, hunk = join ''\<newline>'' hs, change_type = ''modified''\<rparr>]"
    and "observer_path m \<noteq> [] \<Longrightarrow> observer_parse_unified_diff (join ''\<newline>'' (m # hs))
            = [\<lparr>file_path = observer_path m, hunk = join ''\<newline>'' hs, change_type = ''modified''\<rparr>]"
proof -
  have r1: "''rename from'' = ''rename from'' \<or> ''rename from'' = ''rename''" by simp
  have r2: "''rename'' = ''rename from'' \<or> ''rename'' = ''rename''" by simp
  show "core_path m \<noteq> [] \<Longrightarrow> parse_unified_diff (join ''\<newline>'' (m # hs))
            = [\<lparr>file_path = core_path m, hunk = join ''\<newline>'' hs, change_type = ''modified''\<rparr>]"
    by (simp only: parse_unified_diff_lines) (rule headers_only_section[OF r1 a(1) _ a(2) a(3) a(4)])
  show "observer_path m \<noteq> [] \<Longrightarrow> observer_parse_unified_diff (join ''\<newline>'' (m # hs))
            = [\<lparr>file_path = observer_path m, hunk = join ''\<newline>'' hs, change_type = ''modified''\<rparr>]"
    by (simp only: observer_parse_unified_diff_lines) (rule headers_only_section[OF r2 a(1) _ a(2) a(3) a(4)])
qed

lemma emitted_hunk_has_headers:
  assumes rn: "rn = ''rename from'' \<or> rn = ''rename''"
   and d: "d \<in> set (parse_lines_with ex rn (split_on CHR 0x0A raw))"
  shows "\<exists>s \<in> set (sections (split_on CHR 0x0A raw)).
         section_diff ex rn s = Some d \<and>
         (\<forall>h \<in> set (snd s). is_file_header h \<longrightarrow> h \<in> set (split_on CHR 0x0A (hunk d)))"
proof -
  from d have "d \<in> set (List.map_filter (section_diff ex rn) (sections (split_on CHR 0x0A raw)))"
    by (simp only: parse_lines_sections)
  then have "\<exists>s \<in> set (sections (split_on CHR 0x0A raw)). section_diff ex rn s = Some d"
    by (rule in_map_filterD)
  then obtain s where s: "s \<in> set (sections (split_on CHR 0x0A raw))"
    and sd: "section_diff ex rn s = Some d" ..
  have H: "\<forall>h \<in> set (snd s). is_file_header h \<longrightarrow> h \<in> set (split_on CHR 0x0A (hunk d))"
  proof (intro ballI impI)
    fix h assume "h \<in> set (snd s)" "is_file_header h"
    then show "h \<in> set (split_on CHR 0x0A (hunk d))"
      by (rule section_hunk_has_headers[OF rn s sd])
  qed
  show ?thesis by (intro bexI[OF _ s] conjI sd H)
qed

lemma in_map_filterI: "x \<in> set xs \<Longrightarrow> f x = Some d \<Longrightarrow> d \<in> set (List.map_filter f xs)"
  by (induction xs) (auto simp: List.map_filter_simps split: option.splits)

lemma header_dropped:
  assumes rn: "rn = ''rename from'' \<or> rn = ''rename''"
    and cf: "current_file st = []" and fh: "is_file_header l"
  shows "parse_line_with ex rn st l = st"
proof -
  have hl: "is_hunk_line l" using fh by (rule file_header_hunk_line)
  have "parse_line_with ex rn st l =
     st\<lparr>current_lines := current_lines st @ (if current_file st \<noteq> [] \<and> accumulates rn l then [l] else []),
        cur_change_type := next_kind rn (cur_change_type st) l\<rparr>"
    by (rule step_not_boundary[OF file_header_not_boundary[OF fh]])
  also have "\<dots> = st" by (simp add: cf hunk_line_keeps_kind[OF hl rn])
  finally show ?thesis .
qed

lemma header_section_emitted:
  assumes rn: "rn = ''rename from'' \<or> rn = ''rename''"
    and s: "s \<in> set (sections ls)"
    and ex: "\<exists>h \<in> set (snd s). is_file_header h"
    and only: "\<forall>l \<in> set (snd s). is_hunk_line l \<longrightarrow> is_file_header l"
    and path: "ex (fst s) \<noteq> []"
  shows "\<exists>d \<in> set (parse_lines_with ex rn ls). section_diff ex rn s = Some d
           \<and> file_path d = ex (fst s) \<and> hunk d = join ''\<newline>'' (filter is_file_header (snd s))"
proof -
  let ?d = "\<lparr>file_path = ex (fst s), hunk = join ''\<newline>'' (filter is_file_header (snd s)),
             change_type = foldl (next_kind rn) ''modified'' (snd s)\<rparr>"
  have f: "filter (accumulates rn) (snd s) = filter is_file_header (snd s)"
  proof (rule filter_cong[OF refl])
    fix l assume l: "l \<in> set (snd s)"
    show "accumulates rn l = is_file_header l"
    proof
      assume "accumulates rn l"
      then have "is_hunk_line l" by (simp only: accumulates_hunk[OF rn])
      with only l show "is_file_header l" by simp
    next
      assume "is_file_header l"
      then have "is_hunk_line l" by (rule file_header_hunk_line)
      then show "accumulates rn l" by (simp only: accumulates_hunk[OF rn])
    qed
  qed
  from ex have ne: "filter is_file_header (snd s) \<noteq> []" by (simp add: filter_empty_conv)
  have sd: "section_diff ex rn s = Some ?d"
    using path ne by (simp add: section_diff_def f)
  from s sd have "?d \<in> set (List.map_filter (section_diff ex rn) (sections ls))"
    by (rule in_map_filterI)
  then have mem: "?d \<in> set (parse_lines_with ex rn ls)" by (simp only: parse_lines_sections)
  have "section_diff ex rn s = Some ?d \<and> file_path ?d = ex (fst s)
      \<and> hunk ?d = join ''\<newline>'' (filter is_file_header (snd s))"
    using sd by simp
  then show ?thesis by (rule bexI[OF _ mem])
qed

lemma no_path_no_entry: "ex (fst s) = [] \<Longrightarrow> section_diff ex rn s = None"
  by (simp add: section_diff_def)

section \<open>Claims about the unified diff parser\<close>

text \<open>
  Claim C4, as amended. The parser returns one entry per file section, in source order,
  for exactly the sections whose boundary line yields a post-image path (a \<open>b/\<close> with at
  least one character after it) and that hold at least one hunk line. So when every section
  of a text has such a path and at least one hunk line, the result has as many entries as
  the text has boundary lines, with their paths in source order; and a section with no hunk
  line gives no entry. The claim as written leaves the path out: a boundary line without
  \<open>b/\<close> (the output of \<open>git diff --no-prefix\<close>, for one) opens no file, and its hunk lines
  are dropped.
\<close>

theorem parse_unified_diff_sections:
  "parse_unified_diff raw =
     List.map_filter (section_diff core_path ''rename from'') (sections (split_on CHR 0x0A raw))
   \<and> ((\<forall>s \<in> set (sections (split_on CHR 0x0A raw)).
          core_path (fst s) \<noteq> [] \<and> (\<exists>l \<in> set (snd s). is_hunk_line l)) \<longrightarrow>
        length (parse_unified_diff raw) = length (filter is_boundary (split_on CHR 0x0A raw)) \<and>
        map file_path (parse_unified_diff raw) = map core_path (filter is_boundary (split_on CHR 0x0A raw)))
   \<and> ((\<forall>l \<in> set body. \<not> is_hunk_line l) \<longrightarrow> section_diff core_path ''rename from'' (m, body) = None)"
proof (intro conjI impI)
  let ?ls = "split_on CHR 0x0A raw"
  let ?sd = "section_diff core_path ''rename from''"
  show eq: "parse_unified_diff raw = List.map_filter ?sd (sections ?ls)"
    by (simp only: parse_unified_diff_lines parse_lines_sections)
  {
    assume all: "\<forall>s \<in> set (sections ?ls). core_path (fst s) \<noteq> [] \<and> (\<exists>l \<in> set (snd s). is_hunk_line l)"
    have "\<forall>s \<in> set (sections ?ls). \<exists>d. ?sd s = Some d \<and> file_path d = core_path (fst s)"
    proof
      fix s assume "s \<in> set (sections ?ls)"
      with all have "core_path (fst s) \<noteq> []" "\<exists>l \<in> set (snd s). accumulates ''rename from'' l"
        by (simp_all add: accumulates_rename_from)
      then show "\<exists>d. ?sd s = Some d \<and> file_path d = core_path (fst s)" by (rule section_diff_Some)
    qed
    then have "map file_path (List.map_filter ?sd (sections ?ls)) = map (\<lambda>s. core_path (fst s)) (sections ?ls)"
      by (rule map_filter_all_Some)
    also have "\<dots> = map core_path (map fst (sections ?ls))" by simp
    also have "\<dots> = map core_path (filter is_boundary ?ls)" by (simp only: map_fst_sections)
    finally show paths: "map file_path (parse_unified_diff raw) = map core_path (filter is_boundary ?ls)"
      by (simp only: eq)
    from arg_cong[OF paths, of length]
    show "length (parse_unified_diff raw) = length (filter is_boundary ?ls)" by simp
  }
  {
    assume "\<forall>l \<in> set body. \<not> is_hunk_line l"
    then have "\<forall>l \<in> set (snd (m, body)). \<not> accumulates ''rename from'' l"
      by (simp add: accumulates_rename_from)
    then show "?sd (m, body) = None" by (rule section_diff_None)
  }
qed

theorem parse_unified_diff_sections_witness:
  "length (parse_unified_diff ''diff --git a/x b/x\<newline>@@ -1 +1 @@\<newline>-a\<newline>+b\<newline>diff --git a/w b/w\<newline>new file mode 100644\<newline>+w'') = 2
   \<and> map file_path (parse_unified_diff ''diff --git a/x b/x\<newline>@@ -1 +1 @@\<newline>-a\<newline>+b\<newline>diff --git a/w b/w\<newline>new file mode 100644\<newline>+w'') = [''x'', ''w'']
   \<and> section_diff core_path ''rename from'' (''diff --git a/y b/z'', [''similarity index 100%'', ''rename from y'', ''rename to z'']) = None"
  using parse_unified_diff_sections[of "''diff --git a/x b/x\<newline>@@ -1 +1 @@\<newline>-a\<newline>+b\<newline>diff --git a/w b/w\<newline>new file mode 100644\<newline>+w''"
      "[''similarity index 100%'', ''rename from y'', ''rename to z'']" "''diff --git a/y b/z''"]
  by code_simp

text \<open>
  The claim as written fails on the output of \<open>git diff --no-prefix\<close>: one boundary line,
  followed by hunk lines, and no entry.
\<close>

theorem boundary_without_path_counterexample:
  "length (filter is_boundary (split_on CHR 0x0A ''diff --git src/auth.js src/auth.js\<newline>@@ -1 +1 @@\<newline>-old\<newline>+new'')) = 1
   \<and> list_all (\<lambda>s. list_ex is_hunk_line (snd s)) (sections (split_on CHR 0x0A ''diff --git src/auth.js src/auth.js\<newline>@@ -1 +1 @@\<newline>-old\<newline>+new''))
   \<and> parse_unified_diff ''diff --git src/auth.js src/auth.js\<newline>@@ -1 +1 @@\<newline>-old\<newline>+new'' = []"
  by code_simp

text \<open>
  Claim C6, as amended. When the first text is empty or ends with a newline, and the second
  is empty or starts with a boundary line, parsing the concatenation gives the entries of
  the first followed by the entries of the second, so the counts add up. Without the
  newline the last line of the first text and the first line of the second become one line;
  without the boundary the first lines of the second text fall into the last file of the
  first.
\<close>

theorem parse_unified_diff_concat:
  assumes "d1 = [] \<or> last d1 = CHR 0x0A" and "d2 = [] \<or> startswith d2 ''diff --git''"
  shows "parse_unified_diff (d1 @ d2) = parse_unified_diff d1 @ parse_unified_diff d2
       \<and> length (parse_unified_diff (d1 @ d2)) = length (parse_unified_diff d1) + length (parse_unified_diff d2)"
proof -
  have "parse_unified_diff (d1 @ d2) = parse_unified_diff d1 @ parse_unified_diff d2"
    unfolding parse_unified_diff_lines by (rule parse_lines_concat[OF _ assms]) simp
  then show ?thesis by simp
qed

theorem parse_unified_diff_concat_witness:
  "parse_unified_diff (''diff --git a/x b/x\<newline>+a\<newline>'' @ ''diff --git a/y b/y\<newline>+b'')
     = parse_unified_diff ''diff --git a/x b/x\<newline>+a\<newline>'' @ parse_unified_diff ''diff --git a/y b/y\<newline>+b''
   \<and> length (parse_unified_diff (''diff --git a/x b/x\<newline>+a\<newline>'' @ ''diff --git a/y b/y\<newline>+b'')) = 2"
  using parse_unified_diff_concat[of "''diff --git a/x b/x\<newline>+a\<newline>''" "''diff --git a/y b/y\<newline>+b''"]
  by code_simp

text \<open>
  The claim as written fails on two diffs as GitPython returns them, without a final
  newline: each parses to one entry, and their concatenation parses to one entry.
\<close>

theorem concat_without_newline_counterexample:
  "length (parse_unified_diff (''diff --git a/x b/x\<newline>+a'' @ ''diff --git a/y b/y\<newline>+b''))
     \<noteq> length (parse_unified_diff ''diff --git a/x b/x\<newline>+a'') + length (parse_unified_diff ''diff --git a/y b/y\<newline>+b'')"
  by code_simp

text \<open>
  It also fails when the second text does not start with a boundary line.
\<close>

lemma concat_before_hunk_line:
  "length (parse_unified_diff (''diff --git a/x b/x\<newline>'' @ ''+a''))
     \<noteq> length (parse_unified_diff ''diff --git a/x b/x\<newline>'') + length (parse_unified_diff ''+a'')"
  by code_simp

text \<open>
  Claim C10, as amended. In both parsers a line that starts with \<open>---\<close> or \<open>+++\<close> is appended to the
  buffer of the open file; when no file is open, that is when the last boundary line gave
  no path, the line is dropped. So (a) a section whose boundary line gives a path and whose
  hunk lines are such header lines only, at least one, gives an entry, whose hunk is those
  header lines, wherever the section stands in the text; a section whose boundary line gives
  no path gives no entry. And (b) every entry that either parser returns comes from a section
  of the text, and the lines of its hunk include every header line of that section. The
  result of either parser is the list of the entries of the sections, in their order. The
  claim as written leaves the path out of (a).
\<close>

theorem file_header_lines_in_hunk:
  "(current_file st \<noteq> [] \<and> is_file_header l \<longrightarrow>
      parse_line_with core_path ''rename from'' st l = st\<lparr>current_lines := current_lines st @ [l]\<rparr> \<and>
      parse_line_with observer_path ''rename'' st l = st\<lparr>current_lines := current_lines st @ [l]\<rparr>)
   \<and> (current_file st = [] \<and> is_file_header l \<longrightarrow>
        parse_line_with core_path ''rename from'' st l = st \<and>
        parse_line_with observer_path ''rename'' st l = st)
   \<and> (is_boundary m \<and> CHR 0x0A \<notin> set m \<and> hs \<noteq> [] \<and> (\<forall>h \<in> set hs. is_file_header h \<and> CHR 0x0A \<notin> set h) \<longrightarrow>
        (core_path m \<noteq> [] \<longrightarrow> parse_unified_diff (join ''\<newline>'' (m # hs))
            = [\<lparr>file_path = core_path m, hunk = join ''\<newline>'' hs, change_type = ''modified''\<rparr>]) \<and>
        (observer_path m \<noteq> [] \<longrightarrow> observer_parse_unified_diff (join ''\<newline>'' (m # hs))
            = [\<lparr>file_path = observer_path m, hunk = join ''\<newline>'' hs, change_type = ''modified''\<rparr>]))
   \<and> (s \<in> set (sections (split_on CHR 0x0A raw)) \<and> (\<exists>h \<in> set (snd s). is_file_header h)
         \<and> (\<forall>x \<in> set (snd s). is_hunk_line x \<longrightarrow> is_file_header x) \<longrightarrow>
        (core_path (fst s) \<noteq> [] \<longrightarrow>
           (\<exists>d \<in> set (parse_unified_diff raw). section_diff core_path ''rename from'' s = Some d
              \<and> file_path d = core_path (fst s)
              \<and> hunk d = join ''\<newline>'' (filter is_file_header (snd s)))) \<and>
        (observer_path (fst s) \<noteq> [] \<longrightarrow>
           (\<exists>d \<in> set (observer_parse_unified_diff raw). section_diff observer_path ''rename'' s = Some d
              \<and> file_path d = observer_path (fst s)
              \<and> hunk d = join ''\<newline>'' (filter is_file_header (snd s)))) \<and>
        (core_path (fst s) = [] \<longrightarrow> section_diff core_path ''rename from'' s = None) \<and>
        (observer_path (fst s) = [] \<longrightarrow> section_diff observer_path ''rename'' s = None))
   \<and> (\<forall>d \<in> set (parse_unified_diff raw). \<exists>s \<in> set (sections (split_on CHR 0x0A raw)).
         section_diff core_path ''rename from'' s = Some d \<and>
         (\<forall>h \<in> set (snd s). is_file_header h \<longrightarrow> h \<in> set (split_on CHR 0x0A (hunk d))))
   \<and> (\<forall>d \<in> set (observer_parse_unified_diff raw). \<exists>s \<in> set (sections (split_on CHR 0x0A raw)).
         section_diff observer_path ''rename'' s = Some d \<and>
         (\<forall>h \<in> set (snd s). is_file_header h \<longrightarrow> h \<in> set (split_on CHR 0x0A (hunk d))))
   \<and> parse_unified_diff raw
       = List.map_filter (section_diff core_path ''rename from'') (sections (split_on CHR 0x0A raw))
   \<and> observer_parse_unified_diff raw
       = List.map_filter (section_diff observer_path ''rename'') (sections (split_on CHR 0x0A raw))"
proof -
  have r1: "''rename from'' = ''rename from'' \<or> ''rename from'' = ''rename''" by simp
  have r2: "''rename'' = ''rename from'' \<or> ''rename'' = ''rename''" by simp
  have A: "current_file st \<noteq> [] \<and> is_file_header l \<longrightarrow>
      parse_line_with core_path ''rename from'' st l = st\<lparr>current_lines := current_lines st @ [l]\<rparr> \<and>
      parse_line_with observer_path ''rename'' st l = st\<lparr>current_lines := current_lines st @ [l]\<rparr>"
  proof
    assume "current_file st \<noteq> [] \<and> is_file_header l"
    then have cf: "current_file st \<noteq> []" and fh: "is_file_header l" by simp_all
    from header_line_step[OF cf fh]
    show "parse_line_with core_path ''rename from'' st l = st\<lparr>current_lines := current_lines st @ [l]\<rparr> \<and>
      parse_line_with observer_path ''rename'' st l = st\<lparr>current_lines := current_lines st @ [l]\<rparr>"
      by (rule conjI)
  qed
  have A': "current_file st = [] \<and> is_file_header l \<longrightarrow>
        parse_line_with core_path ''rename from'' st l = st \<and>
        parse_line_with observer_path ''rename'' st l = st"
  proof
    assume "current_file st = [] \<and> is_file_header l"
    then have cf: "current_file st = []" and fh: "is_file_header l" by simp_all
    show "parse_line_with core_path ''rename from'' st l = st \<and>
        parse_line_with observer_path ''rename'' st l = st"
      by (rule conjI[OF header_dropped[OF r1 cf fh] header_dropped[OF r2 cf fh]])
  qed
  have B: "is_boundary m \<and> CHR 0x0A \<notin> set m \<and> hs \<noteq> [] \<and> (\<forall>h \<in> set hs. is_file_header h \<and> CHR 0x0A \<notin> set h) \<longrightarrow>
        (core_path m \<noteq> [] \<longrightarrow> parse_unified_diff (join ''\<newline>'' (m # hs))
            = [\<lparr>file_path = core_path m, hunk = join ''\<newline>'' hs, change_type = ''modified''\<rparr>]) \<and>
        (observer_path m \<noteq> [] \<longrightarrow> observer_parse_unified_diff (join ''\<newline>'' (m # hs))
            = [\<lparr>file_path = observer_path m, hunk = join ''\<newline>'' hs, change_type = ''modified''\<rparr>])"
  proof
    assume "is_boundary m \<and> CHR 0x0A \<notin> set m \<and> hs \<noteq> [] \<and> (\<forall>h \<in> set hs. is_file_header h \<and> CHR 0x0A \<notin> set h)"
    then have a: "is_boundary m" "CHR 0x0A \<notin> set m" "hs \<noteq> []"
      "\<forall>h \<in> set hs. is_file_header h \<and> CHR 0x0A \<notin> set h" by simp_all
    show "(core_path m \<noteq> [] \<longrightarrow> parse_unified_diff (join ''\<newline>'' (m # hs))
            = [\<lparr>file_path = core_path m, hunk = join ''\<newline>'' hs, change_type = ''modified''\<rparr>]) \<and>
        (observer_path m \<noteq> [] \<longrightarrow> observer_parse_unified_diff (join ''\<newline>'' (m # hs))
            = [\<lparr>file_path = observer_path m, hunk = join ''\<newline>'' hs, change_type = ''modified''\<rparr>])"
      by (intro conjI impI headers_only_parse[OF a])
  qed
  have B': "s \<in> set (sections (split_on CHR 0x0A raw)) \<and> (\<exists>h \<in> set (snd s). is_file_header h)
         \<and> (\<forall>x \<in> set (snd s). is_hunk_line x \<longrightarrow> is_file_header x) \<longrightarrow>
        (core_path (fst s) \<noteq> [] \<longrightarrow>
           (\<exists>d \<in> set (parse_unified_diff raw). section_diff core_path ''rename from'' s = Some d
              \<and> file_path d = core_path (fst s)
              \<and> hunk d = join ''\<newline>'' (filter is_file_header (snd s)))) \<and>
        (observer_path (fst s) \<noteq> [] \<longrightarrow>
           (\<exists>d \<in> set (observer_parse_unified_diff raw). section_diff observer_path ''rename'' s = Some d
              \<and> file_path d = observer_path (fst s)
              \<and> hunk d = join ''\<newline>'' (filter is_file_header (snd s)))) \<and>
        (core_path (fst s) = [] \<longrightarrow> section_diff core_path ''rename from'' s = None) \<and>
        (observer_path (fst s) = [] \<longrightarrow> section_diff observer_path ''rename'' s = None)"
  proof
    assume "s \<in> set (sections (split_on CHR 0x0A raw)) \<and> (\<exists>h \<in> set (snd s). is_file_header h)
         \<and> (\<forall>x \<in> set (snd s). is_hunk_line x \<longrightarrow> is_file_header x)"
    then have s: "s \<in> set (sections (split_on CHR 0x0A raw))"
      and ex: "\<exists>h \<in> set (snd s). is_file_header h"
      and only: "\<forall>x \<in> set (snd s). is_hunk_line x \<longrightarrow> is_file_header x" by simp_all
    have c: "core_path (fst s) \<noteq> [] \<longrightarrow>
           (\<exists>d \<in> set (parse_unified_diff raw). section_diff core_path ''rename from'' s = Some d
              \<and> file_path d = core_path (fst s)
              \<and> hunk d = join ''\<newline>'' (filter is_file_header (snd s)))"
      unfolding parse_unified_diff_lines by (rule impI) (rule header_section_emitted[OF r1 s ex only])
    have ob: "observer_path (fst s) \<noteq> [] \<longrightarrow>
           (\<exists>d \<in> set (observer_parse_unified_diff raw). section_diff observer_path ''rename'' s = Some d
              \<and> file_path d = observer_path (fst s)
              \<and> hunk d = join ''\<newline>'' (filter is_file_header (snd s)))"
      unfolding observer_parse_unified_diff_lines by (rule impI) (rule header_section_emitted[OF r2 s ex only])
    have n1: "core_path (fst s) = [] \<longrightarrow> section_diff core_path ''rename from'' s = None"
      by (rule impI) (rule no_path_no_entry)
    have n2: "observer_path (fst s) = [] \<longrightarrow> section_diff observer_path ''rename'' s = None"
      by (rule impI) (rule no_path_no_entry)
    from c ob n1 n2
    show "(core_path (fst s) \<noteq> [] \<longrightarrow>
           (\<exists>d \<in> set (parse_unified_diff raw). section_diff core_path ''rename from'' s = Some d
              \<and> file_path d = core_path (fst s)
              \<and> hunk d = join ''\<newline>'' (filter is_file_header (snd s)))) \<and>
        (observer_path (fst s) \<noteq> [] \<longrightarrow>
           (\<exists>d \<in> set (observer_parse_unified_diff raw). section_diff observer_path ''rename'' s = Some d
              \<and> file_path d = observer_path (fst s)
              \<and> hunk d = join ''\<newline>'' (filter is_file_header (snd s)))) \<and>
        (core_path (fst s) = [] \<longrightarrow> section_diff core_path ''rename from'' s = None) \<and>
        (observer_path (fst s) = [] \<longrightarrow> section_diff observer_path ''rename'' s = None)"
      by (intro conjI)
  qed
  have C: "\<forall>d \<in> set (parse_unified_diff raw). \<exists>s \<in> set (sections (split_on CHR 0x0A raw)).
         section_diff core_path ''rename from'' s = Some d \<and>
         (\<forall>h \<in> set (snd s). is_file_header h \<longrightarrow> h \<in> set (split_on CHR 0x0A (hunk d)))"
  proof
    fix d assume "d \<in> set (parse_unified_diff raw)"
    then have "d \<in> set (parse_lines_with core_path ''rename from'' (split_on CHR 0x0A raw))"
      by (simp only: parse_unified_diff_lines)
    then show "\<exists>s \<in> set (sections (split_on CHR 0x0A raw)).
         section_diff core_path ''rename from'' s = Some d \<and>
         (\<forall>h \<in> set (snd s). is_file_header h \<longrightarrow> h \<in> set (split_on CHR 0x0A (hunk d)))"
      by (rule emitted_hunk_has_headers[OF r1])
  qed
  have D: "\<forall>d \<in> set (observer_parse_unified_diff raw). \<exists>s \<in> set (sections (split_on CHR 0x0A raw)).
         section_diff observer_path ''rename'' s = Some d \<and>
         (\<forall>h \<in> set (snd s). is_file_header h \<longrightarrow> h \<in> set (split_on CHR 0x0A (hunk d)))"
  proof
    fix d assume "d \<in> set (observer_parse_unified_diff raw)"
    then have "d \<in> set (parse_lines_with observer_path ''rename'' (split_on CHR 0x0A raw))"
      by (simp only: observer_parse_unified_diff_lines)
    then show "\<exists>s \<in> set (sections (split_on CHR 0x0A raw)).
         section_diff observer_path ''rename'' s = Some d \<and>
         (\<forall>h \<in> set (snd s). is_file_header h \<longrightarrow> h \<in> set (split_on CHR 0x0A (hunk d)))"
      by (rule emitted_hunk_has_headers[OF r2])
  qed
  have E: "parse_unified_diff raw
       = List.map_filter (section_diff core_path ''rename from'') (sections (split_on CHR 0x0A raw))"
    by (simp only: parse_unified_diff_lines parse_lines_sections)
  have F: "observer_parse_unified_diff raw
       = List.map_filter (section_diff observer_path ''rename'') (sections (split_on CHR 0x0A raw))"
    by (simp only: observer_parse_unified_diff_lines parse_lines_sections)
  from A A' B B' C D E F show ?thesis by (intro conjI)
qed

theorem file_header_lines_in_hunk_witness:
  "parse_unified_diff ''diff --git a/x b/x\<newline>--- a/x\<newline>+++ b/x''
     = [\<lparr>file_path = ''x'', hunk = ''--- a/x\<newline>+++ b/x'', change_type = ''modified''\<rparr>]
   \<and> observer_parse_unified_diff ''diff --git a/x b/x\<newline>--- a/x\<newline>+++ b/x''
     = [\<lparr>file_path = ''x'', hunk = ''--- a/x\<newline>+++ b/x'', change_type = ''modified''\<rparr>]
   \<and> parse_line_with core_path ''rename from'' \<lparr>results = [], current_file = ''x'', current_lines = [], cur_change_type = ''modified''\<rparr> ''--- a/x''
     = \<lparr>results = [], current_file = ''x'', current_lines = [''--- a/x''], cur_change_type = ''modified''\<rparr>
   \<and> (''diff --git a/x b/x'', [''index 1..2 100644'', ''--- a/x'', ''+++ b/x''])
       \<in> set (sections (split_on CHR 0x0A ''diff --git a/x b/x\<newline>index 1..2 100644\<newline>--- a/x\<newline>+++ b/x\<newline>diff --git a/y b/y\<newline>--- a/y\<newline>+++ b/y\<newline>@@ -1 +1 @@\<newline>-a\<newline>+b''))
   \<and> parse_unified_diff ''diff --git a/x b/x\<newline>index 1..2 100644\<newline>--- a/x\<newline>+++ b/x\<newline>diff --git a/y b/y\<newline>--- a/y\<newline>+++ b/y\<newline>@@ -1 +1 @@\<newline>-a\<newline>+b''
     = [\<lparr>file_path = ''x'', hunk = ''--- a/x\<newline>+++ b/x'', change_type = ''modified''\<rparr>,
        \<lparr>file_path = ''y'', hunk = ''--- a/y\<newline>+++ b/y\<newline>@@ -1 +1 @@\<newline>-a\<newline>+b'', change_type = ''modified''\<rparr>]
   \<and> observer_parse_unified_diff ''diff --git a/x b/x\<newline>index 1..2 100644\<newline>--- a/x\<newline>+++ b/x\<newline>diff --git a/y b/y\<newline>--- a/y\<newline>+++ b/y\<newline>@@ -1 +1 @@\<newline>-a\<newline>+b'' = parse_unified_diff ''diff --git a/x b/x\<newline>index 1..2 100644\<newline>--- a/x\<newline>+++ b/x\<newline>diff --git a/y b/y\<newline>--- a/y\<newline>+++ b/y\<newline>@@ -1 +1 @@\<newline>-a\<newline>+b''
   \<and> split_on CHR 0x0A (hunk (parse_unified_diff ''diff --git a/x b/x\<newline>index 1..2 100644\<newline>--- a/x\<newline>+++ b/x\<newline>diff --git a/y b/y\<newline>--- a/y\<newline>+++ b/y\<newline>@@ -1 +1 @@\<newline>-a\<newline>+b'' ! 1))
     = [''--- a/y'', ''+++ b/y'', ''@@ -1 +1 @@'', ''-a'', ''+b'']"
  using file_header_lines_in_hunk[of
      "\<lparr>results = [], current_file = ''x'', current_lines = [], cur_change_type = ''modified''\<rparr>"
      "''--- a/x''" "''diff --git a/x b/x''" "[''--- a/x'', ''+++ b/x'']"
      "(''diff --git a/x b/x'', [''index 1..2 100644'', ''--- a/x'', ''+++ b/x''])"
      "''diff --git a/x b/x\<newline>index 1..2 100644\<newline>--- a/x\<newline>+++ b/x\<newline>diff --git a/y b/y\<newline>--- a/y\<newline>+++ b/y\<newline>@@ -1 +1 @@\<newline>-a\<newline>+b''"]
  by code_simp

text \<open>
  Part (a) of the claim as written fails on a section whose boundary line holds no \<open>b/\<close>:
  the section holds the two header lines and nothing else, and neither parser returns an
  entry.
\<close>

theorem header_section_without_path_counterexample:
  "sections (split_on CHR 0x0A ''diff --git x x\<newline>--- x\<newline>+++ x'')
     = [(''diff --git x x'', [''--- x'', ''+++ x''])]
   \<and> list_all is_file_header [''--- x'', ''+++ x'']
   \<and> parse_unified_diff ''diff --git x x\<newline>--- x\<newline>+++ x'' = []
   \<and> observer_parse_unified_diff ''diff --git x x\<newline>--- x\<newline>+++ x'' = []"
  by code_simp

section \<open>Properties of the diff capture and of the correlation engine\<close>

lemma find_changes_in_window_iff:
  "c \<in> set (find_changes_in_window m t) \<longleftrightarrow>
     c \<in> set (file_changes m) \<and> t \<le> ev_timestamp c \<and> ev_timestamp c \<le> t + window m"
  by (simp add: find_changes_in_window_def Let_def)

text \<open>
  Claim C5. For an exchange at time \<open>t\<close> the candidate changes are exactly the entries of
  the history whose time lies in the closed interval from \<open>t\<close> to \<open>t\<close> plus the window, in
  the order of the history. The default window is 90 seconds; with it a change 89 seconds
  after the exchange is a candidate and a change 91 seconds after it is not.
\<close>

theorem candidates_closed_interval:
  "set (find_changes_in_window m t)
     = {c \<in> set (file_changes m). t \<le> ev_timestamp c \<and> ev_timestamp c \<le> t + window m}
   \<and> find_changes_in_window m t
     = filter (\<lambda>c. ev_timestamp c \<in> {t .. t + window m}) (file_changes m)
   \<and> window (new_matcher DEFAULT_WINDOW_SECONDS) = timedelta_seconds 90
   \<and> (c \<in> set h \<and> ev_timestamp c = t0 + timedelta_seconds 89 \<longrightarrow>
        c \<in> set (find_changes_in_window ((new_matcher DEFAULT_WINDOW_SECONDS)\<lparr>file_changes := h\<rparr>) t0))
   \<and> (ev_timestamp c = t0 + timedelta_seconds 91 \<longrightarrow>
        c \<notin> set (find_changes_in_window ((new_matcher DEFAULT_WINDOW_SECONDS)\<lparr>file_changes := h\<rparr>) t0))"
proof (intro conjI impI)
  show "set (find_changes_in_window m t)
     = {c \<in> set (file_changes m). t \<le> ev_timestamp c \<and> ev_timestamp c \<le> t + window m}"
    using find_changes_in_window_iff by blast
  show "find_changes_in_window m t
     = filter (\<lambda>c. ev_timestamp c \<in> {t .. t + window m}) (file_changes m)"
    by (simp add: find_changes_in_window_def Let_def)
  show "window (new_matcher DEFAULT_WINDOW_SECONDS) = timedelta_seconds 90"
    by (simp add: new_matcher_def DEFAULT_WINDOW_SECONDS_def)
  let ?m = "(new_matcher DEFAULT_WINDOW_SECONDS)\<lparr>file_changes := h\<rparr>"
  have w: "window ?m = 90000000"
    by (simp add: new_matcher_def DEFAULT_WINDOW_SECONDS_def timedelta_seconds_def)
  {
    assume "c \<in> set h \<and> ev_timestamp c = t0 + timedelta_seconds 89"
    then show "c \<in> set (find_changes_in_window ?m t0)"
      by (simp add: find_changes_in_window_iff w timedelta_seconds_def)
  }
  {
    assume "ev_timestamp c = t0 + timedelta_seconds 91"
    then show "c \<notin> set (find_changes_in_window ?m t0)"
      by (simp add: find_changes_in_window_iff w timedelta_seconds_def)
  }
qed

theorem candidates_closed_interval_witness:
  "find_changes_in_window
     ((new_matcher DEFAULT_WINDOW_SECONDS)\<lparr>file_changes :=
        [\<lparr>ev_file_path = ''a'', ev_change_type = ''modified'', ev_timestamp = 1000000000\<rparr>,
         \<lparr>ev_file_path = ''b'', ev_change_type = ''modified'', ev_timestamp = 1089000000\<rparr>,
         \<lparr>ev_file_path = ''c'', ev_change_type = ''modified'', ev_timestamp = 1090000000\<rparr>,
         \<lparr>ev_file_path = ''d'', ev_change_type = ''modified'', ev_timestamp = 1091000000\<rparr>,
         \<lparr>ev_file_path = ''e'', ev_change_type = ''modified'', ev_timestamp = 999999999\<rparr>]\<rparr>)
     1000000000
   = [\<lparr>ev_file_path = ''a'', ev_change_type = ''modified'', ev_timestamp = 1000000000\<rparr>,
      \<lparr>ev_file_path = ''b'', ev_change_type = ''modified'', ev_timestamp = 1089000000\<rparr>,
      \<lparr>ev_file_path = ''c'', ev_change_type = ''modified'', ev_timestamp = 1090000000\<rparr>]"
  using candidates_closed_interval[of
      "(new_matcher DEFAULT_WINDOW_SECONDS)\<lparr>file_changes :=
        [\<lparr>ev_file_path = ''a'', ev_change_type = ''modified'', ev_timestamp = 1000000000\<rparr>,
         \<lparr>ev_file_path = ''b'', ev_change_type = ''modified'', ev_timestamp = 1089000000\<rparr>,
         \<lparr>ev_file_path = ''c'', ev_change_type = ''modified'', ev_timestamp = 1090000000\<rparr>,
         \<lparr>ev_file_path = ''d'', ev_change_type = ''modified'', ev_timestamp = 1091000000\<rparr>,
         \<lparr>ev_file_path = ''e'', ev_change_type = ''modified'', ev_timestamp = 999999999\<rparr>]\<rparr>"
      1000000000]
  by (simp add: new_matcher_def DEFAULT_WINDOW_SECONDS_def timedelta_seconds_def)

lemma except_caught:
  assumes "\<And>e. body = Inl e \<Longrightarrow> e \<in> set classes"
  shows "except classes h body = Inr (case body of Inl e \<Rightarrow> h | Inr v \<Rightarrow> v)"
  using assms by (cases body) (simp_all add: except_def)

lemma except_Inl: "e \<in> set classes \<Longrightarrow> except classes h (Inl e) = Inr h"
  by (simp add: except_def)

lemma except_Inr [simp]: "except classes h (Inr v) = Inr v"
  by (simp add: except_def)

lemma roe_diff: "repository_errors_only g \<Longrightarrow> git_diff g args = Inl e \<Longrightarrow> e \<in> set GIT_ERRORS"
  by (simp add: repository_errors_only_def)

lemma roe_probe: "repository_errors_only g \<Longrightarrow> probe_commits g = Inl e \<Longrightarrow> e \<in> set GIT_ERRORS"
  by (simp add: repository_errors_only_def)

lemma roe_untracked: "repository_errors_only g \<Longrightarrow> untracked_files g = Inl e \<Longrightarrow> e \<in> set GIT_ERRORS"
  by (simp add: repository_errors_only_def)

lemma has_commits_total:
  assumes "repository_errors_only g"
  shows "has_commits g = Inr (case probe_commits g of Inl e \<Rightarrow> False | Inr b \<Rightarrow> b)"
  unfolding has_commits_def
  by (rule except_caught) (use roe_probe[OF assms] in auto)

lemma get_unstaged_diff_total:
  assumes "repository_errors_only g"
  shows "get_unstaged_diff g
     = Inr (case git_diff g [] of Inl e \<Rightarrow> [] | Inr raw \<Rightarrow> observer_parse_unified_diff raw)"
proof (cases "git_diff g []")
  case (Inl e)
  with roe_diff[OF assms Inl] show ?thesis by (simp add: get_unstaged_diff_def except_Inl)
next
  case (Inr raw)
  then show ?thesis by (simp add: get_unstaged_diff_def)
qed

lemma get_staged_diff_total:
  assumes "repository_errors_only g"
  shows "get_staged_diff g
     = Inr (case git_diff g [''--cached''] of Inl e \<Rightarrow> [] | Inr raw \<Rightarrow> observer_parse_unified_diff raw)"
proof (cases "git_diff g [''--cached'']")
  case (Inl e)
  with roe_diff[OF assms Inl] show ?thesis by (simp add: get_staged_diff_def except_Inl)
next
  case (Inr raw)
  then show ?thesis by (simp add: get_staged_diff_def)
qed

lemma get_combined_diff_cases:
  assumes "repository_errors_only g"
  shows "get_combined_diff g file_paths =
     Inr (if (case probe_commits g of Inl e \<Rightarrow> False | Inr b \<Rightarrow> b) then
            (case git_diff g (head_args (the_names file_paths)) of
               Inl e \<Rightarrow> []
             | Inr raw \<Rightarrow> observer_parse_unified_diff raw)
          else
            (case git_diff g (cached_args (the_names file_paths)) of
               Inl e \<Rightarrow> []
             | Inr staged \<Rightarrow>
                 if the_names file_paths = [] then observer_parse_unified_diff (staged @ ''\<newline>'')
                 else (case git_diff g ([''--''] @ the_names file_paths) of
                         Inl e \<Rightarrow> []
                       | Inr unstaged \<Rightarrow> observer_parse_unified_diff (staged @ ''\<newline>'' @ unstaged))))"
proof -
  let ?f = "the_names file_paths"
  note hc = has_commits_total[OF assms]
  show ?thesis
  proof (cases "case probe_commits g of Inl e \<Rightarrow> False | Inr b \<Rightarrow> b")
    case True
    show ?thesis
    proof (cases "git_diff g (head_args ?f)")
      case (Inl e)
      from roe_diff[OF assms Inl] Inl True hc show ?thesis
        by (simp add: get_combined_diff_def head_args_def the_names_def except_Inl Let_def)
    next
      case (Inr raw)
      with True hc show ?thesis
        by (simp add: get_combined_diff_def head_args_def the_names_def Let_def)
    qed
  next
    case False
    show ?thesis
    proof (cases "git_diff g (cached_args ?f)")
      case (Inl e)
      from roe_diff[OF assms Inl] Inl False hc show ?thesis
        by (simp add: get_combined_diff_def cached_args_def the_names_def except_Inl Let_def)
    next
      case staged: (Inr staged)
      show ?thesis
      proof (cases "?f = []")
        case True
        with staged False hc show ?thesis
          by (simp add: get_combined_diff_def cached_args_def the_names_def Let_def)
      next
        case ne: False
        show ?thesis
        proof (cases "git_diff g ([''--''] @ ?f)")
          case (Inl e)
          from roe_diff[OF assms Inl] Inl ne staged False hc show ?thesis
            by (simp add: get_combined_diff_def cached_args_def the_names_def except_Inl Let_def)
        next
          case (Inr unstaged)
          with ne staged False hc show ?thesis
            by (simp add: get_combined_diff_def cached_args_def the_names_def Let_def)
        qed
      qed
    qed
  qed
qed

lemma get_dirty_files_total:
  assumes "repository_errors_only g"
  shows "\<exists>fs. get_dirty_files g = Inr fs"
proof (cases "git_diff g [''--name-only'', ''--cached'']")
  case (Inl e)
  with roe_diff[OF assms Inl] show ?thesis by (simp add: get_dirty_files_def except_Inl)
next
  case a: (Inr staged)
  show ?thesis
  proof (cases "git_diff g [''--name-only'']")
    case (Inl e)
    with roe_diff[OF assms Inl] a show ?thesis by (simp add: get_dirty_files_def except_Inl)
  next
    case b: (Inr unstaged)
    show ?thesis
    proof (cases "untracked_files g")
      case (Inl e)
      with roe_untracked[OF assms Inl] a b show ?thesis by (simp add: get_dirty_files_def except_Inl)
    next
      case (Inr u)
      with a b show ?thesis by (simp add: get_dirty_files_def)
    qed
  qed
qed

lemma get_dirty_files_failed:
  assumes "repository_errors_only g"
    and "(\<exists>e. git_diff g [''--name-only'', ''--cached''] = Inl e)
       \<or> (\<exists>e. git_diff g [''--name-only''] = Inl e) \<or> (\<exists>e. untracked_files g = Inl e)"
  shows "get_dirty_files g = Inr []"
proof (cases "git_diff g [''--name-only'', ''--cached'']")
  case (Inl e)
  with roe_diff[OF assms(1) Inl] show ?thesis by (simp add: get_dirty_files_def except_Inl)
next
  case a: (Inr staged)
  show ?thesis
  proof (cases "git_diff g [''--name-only'']")
    case (Inl e)
    with roe_diff[OF assms(1) Inl] a show ?thesis by (simp add: get_dirty_files_def except_Inl)
  next
    case b: (Inr unstaged)
    show ?thesis
    proof (cases "untracked_files g")
      case (Inl e)
      with roe_untracked[OF assms(1) Inl] a b show ?thesis by (simp add: get_dirty_files_def except_Inl)
    next
      case (Inr u)
      with a b assms(2) show ?thesis by simp
    qed
  qed
qed

lemma acquire_diffs_total:
  assumes "case git_capture of None \<Rightarrow> True | Some g \<Rightarrow> repository_errors_only g"
  shows "\<exists>ds. acquire_diffs git_capture mc = Inr ds"
proof (cases git_capture)
  case None
  then show ?thesis by (simp add: acquire_diffs_def)
next
  case (Some g)
  with assms have roe: "repository_errors_only g" by simp
  obtain ds where c: "get_combined_diff g None = Inr ds"
    using get_combined_diff_cases[OF roe] by blast
  obtain us where u: "get_unstaged_diff g = Inr us"
    using get_unstaged_diff_total[OF roe] by blast
  from Some c u show ?thesis by (simp add: acquire_diffs_def)
qed

lemma match_prompt_total:
  assumes "case git_capture of None \<Rightarrow> True | Some g \<Rightarrow> repository_errors_only g"
  shows "\<exists>mc ds sc. match_prompt m git_capture convo = Inr (mc, ds, sc)"
proof -
  obtain ds where "acquire_diffs git_capture (find_changes_in_window m (timestamp convo)) = Inr ds"
    using acquire_diffs_total[OF assms] by blast
  then show ?thesis by (simp add: match_prompt_def Let_def)
qed

text \<open>
  The order of \<open>affected_files\<close>: whatever the rank, the list holds each path of the diffs
  once; and every order of these paths is the order of some rank, so that a statement that
  holds for every rank holds for every order Python may choose.
\<close>

lemma list_of_set_elems: "set (list_of_set rank xs) = set xs \<and> distinct (list_of_set rank xs)"
  by (simp add: list_of_set_def)

lemma takeWhile_position:
  "x \<in> set ys \<Longrightarrow> ys ! length (takeWhile (\<lambda>y. y \<noteq> x) ys) = x"
  by (induction ys) auto

lemma map_position:
  "distinct ys \<Longrightarrow> map (\<lambda>x. length (takeWhile (\<lambda>y. y \<noteq> x) ys)) ys = [0..<length ys]"
proof (induction ys)
  case Nil
  show ?case by simp
next
  case (Cons y ys)
  have "map (\<lambda>x. length (takeWhile (\<lambda>z. z \<noteq> x) (y # ys))) ys
      = map (\<lambda>x. Suc (length (takeWhile (\<lambda>z. z \<noteq> x) ys))) ys"
  proof (rule map_cong[OF refl])
    fix x assume "x \<in> set ys"
    with Cons.prems have "y \<noteq> x" by auto
    then show "length (takeWhile (\<lambda>z. z \<noteq> x) (y # ys)) = Suc (length (takeWhile (\<lambda>z. z \<noteq> x) ys))"
      by simp
  qed
  also have "\<dots> = map Suc (map (\<lambda>x. length (takeWhile (\<lambda>z. z \<noteq> x) ys)) ys)" by simp
  also have "\<dots> = map Suc [0..<length ys]" using Cons by simp
  finally show ?case by (simp add: map_Suc_upt upt_conv_Cons del: upt_Suc)
qed

lemma list_of_set_any_order:
  assumes d: "distinct ys" and e: "set ys = set xs"
  shows "\<exists>rank. list_of_set rank xs = ys"
proof -
  define f where "f = (\<lambda>x. length (takeWhile (\<lambda>y. y \<noteq> x) ys))"
  let ?zs = "sort_key f (remdups xs)"
  have inj: "inj_on f (set ys)"
  proof (rule inj_onI)
    fix a b assume a: "a \<in> set ys" and b: "b \<in> set ys" and ab: "f a = f b"
    have "a = ys ! f a" unfolding f_def by (rule takeWhile_position[OF a, symmetric])
    also have "\<dots> = ys ! f b" by (simp only: ab)
    also have "\<dots> = b" unfolding f_def by (rule takeWhile_position[OF b])
    finally show "a = b" .
  qed
  have mf: "map f ys = [0..<length ys]" unfolding f_def by (rule map_position[OF d])
  have sz: "set ?zs = set ys" using e by simp
  have dz: "distinct ?zs" by simp
  have "map f ?zs = map f ys"
  proof (rule sorted_distinct_set_unique)
    show "sorted (map f ?zs)" by (rule sorted_sort_key)
    show "distinct (map f ?zs)" using inj dz unfolding distinct_map sz by (rule conjI[rotated])
    show "sorted (map f ys)" unfolding mf by simp
    show "distinct (map f ys)" unfolding mf by simp
    show "set (map f ?zs) = set (map f ys)" unfolding set_map sz by (rule refl)
  qed
  moreover have "inj_on f (set ?zs \<union> set ys)" unfolding sz using inj by simp
  ultimately have "?zs = ys" by (simp only: inj_on_map_eq_map)
  then have "list_of_set f xs = ys" by (simp only: list_of_set_def)
  then show ?thesis by (rule exI[of "\<lambda>r. list_of_set r xs = ys" f])
qed

lemma node_arrival_build_node:
  "node_arrival (build_node rk uid c s pid pn ds) = arrival (c, s, pid, pn)"
  by (simp add: node_arrival_def arrival_def build_node_def)

lemma flush_nodes_Inr:
  "flush_nodes m gc u rk i ps = Inr nodes \<Longrightarrow>
     length nodes = length ps \<and> map node_arrival nodes = map arrival ps"
proof (induction ps arbitrary: i nodes)
  case Nil
  then show ?case by simp
next
  case (Cons p ps)
  obtain c s pid pn where p: "p = (c, s, pid, pn)" by (cases p) auto
  from Cons.prems p obtain mc ds sc rest where
    mp: "match_prompt m gc c = Inr (mc, ds, sc)"
    and r: "flush_nodes m gc u rk (Suc i) ps = Inr rest"
    and n: "nodes = build_node rk (u i) c s pid pn ds # rest"
    by (auto split: sum.splits)
  from Cons.IH[OF r] have "length rest = length ps" "map node_arrival rest = map arrival ps"
    by simp_all
  with n p show ?case by (simp add: node_arrival_build_node)
qed

lemma flush_nodes_total:
  assumes "case gc of None \<Rightarrow> True | Some g \<Rightarrow> repository_errors_only g"
  shows "\<exists>nodes. flush_nodes m gc u rk i ps = Inr nodes"
proof (induction ps arbitrary: i)
  case Nil
  show ?case by simp
next
  case (Cons p ps)
  obtain c s pid pn where p: "p = (c, s, pid, pn)" by (cases p) auto
  obtain mc ds sc where mp: "match_prompt m gc c = Inr (mc, ds, sc)"
    using match_prompt_total[OF assms] by blast
  obtain rest where r: "flush_nodes m gc u rk (Suc i) ps = Inr rest"
    using Cons.IH by blast
  from p mp r show ?case by simp
qed

lemma flush_Inr:
  assumes "flush m gc now u rk = (Inr nodes, m')"
  shows "flush_nodes m gc u rk 0 (pending_prompts m) = Inr nodes
     \<and> m' = m\<lparr>pending_prompts := [], file_changes := prune m now\<rparr>"
  using assms by (auto simp: flush_def prune_def Let_def split: sum.splits)

text \<open>
  Claim C1. When no capture is given, or the repository layer raises only errors of the
  classes in \<open>GIT_ERRORS\<close>, \<open>flush\<close> returns a list with one output record per queued
  exchange, in the order of arrival, empties the queue and prunes the history. Whenever
  \<open>flush\<close> returns at all, the list has that shape. The record is built by \<open>build_node\<close>,
  which does not take the score. With an empty queue \<open>flush\<close> returns the empty list and
  changes nothing but the history, which it prunes.
\<close>

theorem flush_one_record_per_exchange:
  "((case git_capture of None \<Rightarrow> True | Some g \<Rightarrow> repository_errors_only g) \<longrightarrow>
      (\<exists>nodes. flush m git_capture now uuid4 rank
           = (Inr nodes, m\<lparr>pending_prompts := [], file_changes := prune m now\<rparr>)
         \<and> length nodes = length (pending_prompts m)
         \<and> map node_arrival nodes = map arrival (pending_prompts m)))
   \<and> (\<forall>nodes m'. flush m git_capture now uuid4 rank = (Inr nodes, m') \<longrightarrow>
         length nodes = length (pending_prompts m)
         \<and> map node_arrival nodes = map arrival (pending_prompts m)
         \<and> m' = m\<lparr>pending_prompts := [], file_changes := prune m now\<rparr>)
   \<and> (pending_prompts m = [] \<longrightarrow>
         flush m git_capture now uuid4 rank = (Inr [], m\<lparr>file_changes := prune m now\<rparr>))"
proof (intro conjI impI allI)
  assume "case git_capture of None \<Rightarrow> True | Some g \<Rightarrow> repository_errors_only g"
  from flush_nodes_total[OF this]
  obtain nodes where n: "flush_nodes m git_capture uuid4 rank 0 (pending_prompts m) = Inr nodes"
    by blast
  then have "flush m git_capture now uuid4 rank
      = (Inr nodes, m\<lparr>pending_prompts := [], file_changes := prune m now\<rparr>)"
    by (simp add: flush_def prune_def Let_def)
  with flush_nodes_Inr[OF n]
  show "\<exists>nodes. flush m git_capture now uuid4 rank
           = (Inr nodes, m\<lparr>pending_prompts := [], file_changes := prune m now\<rparr>)
         \<and> length nodes = length (pending_prompts m)
         \<and> map node_arrival nodes = map arrival (pending_prompts m)" by blast
next
  fix nodes m' assume f: "flush m git_capture now uuid4 rank = (Inr nodes, m')"
  from flush_Inr[OF f] flush_nodes_Inr
  show "length nodes = length (pending_prompts m)" by blast
  from flush_Inr[OF f] flush_nodes_Inr
  show "map node_arrival nodes = map arrival (pending_prompts m)" by blast
  from flush_Inr[OF f]
  show "m' = m\<lparr>pending_prompts := [], file_changes := prune m now\<rparr>" by blast
next
  assume e: "pending_prompts m = []"
  then have "m\<lparr>pending_prompts := [], file_changes := prune m now\<rparr> = m\<lparr>file_changes := prune m now\<rparr>"
    by (cases m) simp
  with e show "flush m git_capture now uuid4 rank = (Inr [], m\<lparr>file_changes := prune m now\<rparr>)"
    by (simp add: flush_def prune_def Let_def)
qed

lemma broken_repo_errors: "repository_errors_only broken_repo"
  by (simp add: repository_errors_only_def broken_repo_def GIT_ERRORS_def)

lemma unborn_branch_repo_errors: "repository_errors_only unborn_branch_repo"
  by (simp add: repository_errors_only_def unborn_branch_repo_def GIT_ERRORS_def)

theorem flush_one_record_per_exchange_witness:
  "(\<exists>nodes. flush two_prompts (Some broken_repo) 700000000 (\<lambda>i. ''node'') (\<lambda>p. 0)
        = (Inr nodes, two_prompts\<lparr>pending_prompts := [], file_changes := prune two_prompts 700000000\<rparr>)
      \<and> length nodes = length (pending_prompts two_prompts)
      \<and> map node_arrival nodes = map arrival (pending_prompts two_prompts))
   \<and> map arrival (pending_prompts two_prompts)
       = [(500000000, ''first request'', ''first reply'', CURSOR, [], []),
          (600000000, ''second request'', ''second reply'', CLAUDECODE, ''/repo'', ''repo'')]
   \<and> flush (new_matcher DEFAULT_WINDOW_SECONDS) None 700000000 (\<lambda>i. ''node'') (\<lambda>p. 0)
       = (Inr [], (new_matcher DEFAULT_WINDOW_SECONDS)\<lparr>file_changes :=
            prune (new_matcher DEFAULT_WINDOW_SECONDS) 700000000\<rparr>)"
proof -
  have h: "case Some broken_repo of None \<Rightarrow> True | Some g \<Rightarrow> repository_errors_only g"
    by (simp add: broken_repo_errors)
  have e: "pending_prompts (new_matcher DEFAULT_WINDOW_SECONDS) = []"
    by (simp add: new_matcher_def)
  have q: "map arrival (pending_prompts two_prompts)
       = [(500000000, ''first request'', ''first reply'', CURSOR, [], []),
          (600000000, ''second request'', ''second reply'', CLAUDECODE, ''/repo'', ''repo'')]"
    by code_simp
  note A = flush_one_record_per_exchange[of "Some broken_repo" two_prompts 700000000 "\<lambda>i. ''node''" "\<lambda>p. 0",
      THEN conjunct1, rule_format, OF h]
  note B = flush_one_record_per_exchange[of None "new_matcher DEFAULT_WINDOW_SECONDS" 700000000 "\<lambda>i. ''node''" "\<lambda>p. 0",
      THEN conjunct2, THEN conjunct2, rule_format, OF e]
  from A q B show ?thesis by (intro conjI)
qed

lemma probe_error_path:
  assumes roe: "repository_errors_only g" and p: "probe_commits g = Inl e"
  shows "get_combined_diff g file_paths = get_combined_diff (g\<lparr>probe_commits := Inr False\<rparr>) file_paths"
proof -
  have e: "e \<in> set GIT_ERRORS" by (rule roe_probe[OF roe p])
  have a: "has_commits g = Inr False"
    by (simp add: has_commits_def except_def p e)
  have b: "has_commits (g\<lparr>probe_commits := Inr False\<rparr>) = Inr False"
    by (simp add: has_commits_def except_def)
  have c: "git_diff (g\<lparr>probe_commits := Inr False\<rparr>) = git_diff g" by simp
  show ?thesis unfolding get_combined_diff_def a b c by (rule refl)
qed

text \<open>
  Claim C9, as amended. When the repository layer raises only errors of the classes in
  \<open>GIT_ERRORS\<close>, none of the four operations raises. An error of a diff or listing command
  gives the empty list. An error of the commit probe does not: \<open>_has_commits\<close> absorbs it
  and answers that there is no commit, and \<open>get_combined_diff\<close> goes on as it does for a
  branch without commits.
\<close>

theorem diff_capture_absorbs_repository_errors:
  assumes roe: "repository_errors_only g"
  shows "(\<exists>ds. get_combined_diff g file_paths = Inr ds)
    \<and> (\<exists>ds. get_unstaged_diff g = Inr ds)
    \<and> (\<exists>ds. get_staged_diff g = Inr ds)
    \<and> (\<exists>fs. get_dirty_files g = Inr fs)
    \<and> ((\<exists>e. git_diff g [] = Inl e) \<longrightarrow> get_unstaged_diff g = Inr [])
    \<and> ((\<exists>e. git_diff g [''--cached''] = Inl e) \<longrightarrow> get_staged_diff g = Inr [])
    \<and> ((\<exists>e. git_diff g [''--name-only'', ''--cached''] = Inl e)
          \<or> (\<exists>e. git_diff g [''--name-only''] = Inl e) \<or> (\<exists>e. untracked_files g = Inl e)
        \<longrightarrow> get_dirty_files g = Inr [])
    \<and> (has_commits g = Inr True \<and> (\<exists>e. git_diff g (head_args (the_names file_paths)) = Inl e)
        \<longrightarrow> get_combined_diff g file_paths = Inr [])
    \<and> (has_commits g = Inr False
          \<and> ((\<exists>e. git_diff g (cached_args (the_names file_paths)) = Inl e)
             \<or> (the_names file_paths \<noteq> []
                 \<and> (\<exists>e. git_diff g ([''--''] @ the_names file_paths) = Inl e)))
        \<longrightarrow> get_combined_diff g file_paths = Inr [])
    \<and> ((\<exists>e. probe_commits g = Inl e) \<longrightarrow>
          has_commits g = Inr False
          \<and> get_combined_diff g file_paths
              = get_combined_diff (g\<lparr>probe_commits := Inr False\<rparr>) file_paths)"
proof (intro conjI impI)
  note cd = get_combined_diff_cases[OF roe, of file_paths]
  note hc = has_commits_total[OF roe]
  show "\<exists>ds. get_combined_diff g file_paths = Inr ds" using cd by (rule exI)
  show "\<exists>ds. get_unstaged_diff g = Inr ds" using get_unstaged_diff_total[OF roe] by (rule exI)
  show "\<exists>ds. get_staged_diff g = Inr ds" using get_staged_diff_total[OF roe] by (rule exI)
  show "\<exists>fs. get_dirty_files g = Inr fs" by (rule get_dirty_files_total[OF roe])
  {
    assume "\<exists>e. git_diff g [] = Inl e"
    then show "get_unstaged_diff g = Inr []"
      using get_unstaged_diff_total[OF roe] by (auto split: sum.splits)
  }
  {
    assume "\<exists>e. git_diff g [''--cached''] = Inl e"
    then show "get_staged_diff g = Inr []"
      using get_staged_diff_total[OF roe] by (auto split: sum.splits)
  }
  {
    assume "(\<exists>e. git_diff g [''--name-only'', ''--cached''] = Inl e)
          \<or> (\<exists>e. git_diff g [''--name-only''] = Inl e) \<or> (\<exists>e. untracked_files g = Inl e)"
    then show "get_dirty_files g = Inr []" by (rule get_dirty_files_failed[OF roe])
  }
  {
    assume a: "has_commits g = Inr True \<and> (\<exists>e. git_diff g (head_args (the_names file_paths)) = Inl e)"
    with hc have "(case probe_commits g of Inl e \<Rightarrow> False | Inr b \<Rightarrow> b)" by simp
    moreover from a obtain e where "git_diff g (head_args (the_names file_paths)) = Inl e" by blast
    ultimately show "get_combined_diff g file_paths = Inr []" using cd by simp
  }
  {
    assume a: "has_commits g = Inr False
          \<and> ((\<exists>e. git_diff g (cached_args (the_names file_paths)) = Inl e)
             \<or> (the_names file_paths \<noteq> []
                 \<and> (\<exists>e. git_diff g ([''--''] @ the_names file_paths) = Inl e)))"
    with hc have p: "\<not> (case probe_commits g of Inl e \<Rightarrow> False | Inr b \<Rightarrow> b)" by simp
    from a consider e where "git_diff g (cached_args (the_names file_paths)) = Inl e"
      | e where "the_names file_paths \<noteq> []" "git_diff g ([''--''] @ the_names file_paths) = Inl e"
      by blast
    then show "get_combined_diff g file_paths = Inr []"
    proof cases
      case 1
      with p cd show ?thesis by simp
    next
      case 2
      with p cd show ?thesis by (simp split: sum.splits)
    qed
  }
  {
    assume pe: "\<exists>e. probe_commits g = Inl e"
    then show "has_commits g = Inr False" using hc by (auto split: sum.splits)
    from pe obtain e where "probe_commits g = Inl e" ..
    then show "get_combined_diff g file_paths
        = get_combined_diff (g\<lparr>probe_commits := Inr False\<rparr>) file_paths"
      by (rule probe_error_path[OF roe])
  }
qed

theorem diff_capture_absorbs_repository_errors_witness:
  "get_combined_diff broken_repo None = Inr []
   \<and> get_unstaged_diff broken_repo = Inr []
   \<and> get_staged_diff broken_repo = Inr []
   \<and> get_dirty_files broken_repo = Inr []
   \<and> has_commits broken_repo = Inr False
   \<and> get_combined_diff broken_repo None
       = get_combined_diff (broken_repo\<lparr>probe_commits := Inr False\<rparr>) None"
proof -
  note T = diff_capture_absorbs_repository_errors[OF broken_repo_errors, of None]
  note T4 = T[THEN conjunct2, THEN conjunct2, THEN conjunct2, THEN conjunct2]
  note T5 = T4[THEN conjunct1, rule_format]
  note T6 = T4[THEN conjunct2, THEN conjunct1, rule_format]
  note T7 = T4[THEN conjunct2, THEN conjunct2, THEN conjunct1, rule_format]
  note T9 = T4[THEN conjunct2, THEN conjunct2, THEN conjunct2, THEN conjunct2, THEN conjunct1, rule_format]
  note T10 = T4[THEN conjunct2, THEN conjunct2, THEN conjunct2, THEN conjunct2, THEN conjunct2, rule_format]
  have d: "\<And>args. \<exists>e. git_diff broken_repo args = Inl e" by (simp add: broken_repo_def)
  have p: "\<exists>e. probe_commits broken_repo = Inl e" by (simp add: broken_repo_def)
  have hc: "has_commits broken_repo = Inr False" by (rule T10[OF p, THEN conjunct1])
  note same = T10[OF p, THEN conjunct2]
  have u: "get_unstaged_diff broken_repo = Inr []" by (rule T5[OF d])
  have s: "get_staged_diff broken_repo = Inr []" by (rule T6[OF d])
  have f: "get_dirty_files broken_repo = Inr []" by (rule T7[OF disjI1[OF d]])
  have c: "get_combined_diff broken_repo None = Inr []"
    by (rule T9[OF conjI[OF hc disjI1[OF d]]])
  from c u s f hc same show ?thesis by (intro conjI)
qed

text \<open>
  The claim as written fails on a branch without commits whose index holds a new file: the
  commit probe raises an error of the repository layer, and \<open>get_combined_diff\<close> returns the
  entry of the staged file, not the empty list.
\<close>

theorem probe_error_counterexample:
  "probe_commits staged_only_repo = Inl GitError
   \<and> GitError \<in> set GIT_ERRORS
   \<and> get_combined_diff staged_only_repo None
       = Inr [\<lparr>file_path = ''app.py'', hunk = ''--- /dev/null\<newline>+++ b/app.py\<newline>@@ -0,0 +1 @@\<newline>+print(1)'',
               change_type = ''added''\<rparr>]
   \<and> get_combined_diff staged_only_repo None \<noteq> Inr []"
  by code_simp

text \<open>
  Claim C7, evaluated on the code. For a branch without commits and no path filter,
  \<open>get_combined_diff\<close> parses the staged diff followed by a newline and never asks for the
  unstaged diff; with a path filter it parses the staged diff, a newline and the unstaged
  diff.
\<close>

theorem combined_diff_without_filter_omits_unstaged:
  "(has_commits g = Inr False \<and> git_diff g [''--cached''] = Inr staged \<longrightarrow>
      get_combined_diff g None = Inr (observer_parse_unified_diff (staged @ ''\<newline>'')))
   \<and> (has_commits g = Inr False \<and> fnames \<noteq> []
        \<and> git_diff g ([''--cached'', ''--''] @ fnames) = Inr staged
        \<and> git_diff g ([''--''] @ fnames) = Inr unstaged \<longrightarrow>
      get_combined_diff g (Some fnames)
        = Inr (observer_parse_unified_diff (staged @ ''\<newline>'' @ unstaged)))"
  by (simp add: get_combined_diff_def Let_def)

theorem combined_diff_without_filter_omits_unstaged_witness:
  "get_combined_diff unborn_branch_repo None = Inr (observer_parse_unified_diff (staged_text @ ''\<newline>''))
   \<and> get_combined_diff unborn_branch_repo (Some [''app.py''])
       = Inr (observer_parse_unified_diff (staged_text @ ''\<newline>'' @ unstaged_text))
   \<and> map hunk (observer_parse_unified_diff (staged_text @ ''\<newline>''))
       = [''--- /dev/null\<newline>+++ b/app.py\<newline>@@ -0,0 +1 @@\<newline>+print(1)'']
   \<and> map hunk (observer_parse_unified_diff (staged_text @ ''\<newline>'' @ unstaged_text))
       = [''--- /dev/null\<newline>+++ b/app.py\<newline>@@ -0,0 +1 @@\<newline>+print(1)'',
          ''--- a/app.py\<newline>+++ b/app.py\<newline>@@ -1 +1 @@\<newline>-print(1)\<newline>+print(2)'']
   \<and> get_unstaged_diff unborn_branch_repo
       = Inr [\<lparr>file_path = ''app.py'', hunk = ''--- a/app.py\<newline>+++ b/app.py\<newline>@@ -1 +1 @@\<newline>-print(1)\<newline>+print(2)'',
               change_type = ''modified''\<rparr>]"
  using combined_diff_without_filter_omits_unstaged[of unborn_branch_repo staged_text "[''app.py'']" unstaged_text]
  by code_simp

section \<open>Properties of the score\<close>

lemma findall_ident_space: "findall_ident (CHR '' '' # b) = findall_ident b"
  by (simp add: ident_start_def is_ascii_letter_def is_ascii_lower_def is_ascii_upper_def)

lemma not_ident_char_space: "\<not> ident_char CHR '' ''"
  by (simp add: ident_char_def is_ascii_letter_def is_ascii_lower_def is_ascii_upper_def is_ascii_digit_def)

lemma findall_ident_append_space:
  "findall_ident (a @ CHR '' '' # b) = findall_ident a @ findall_ident b"
proof (induction a rule: findall_ident.induct)
  case 1
  show ?case by (simp only: append_Nil findall_ident_space findall_ident.simps(1))
next
  case (2 c cs)
  have tw: "takeWhile ident_char (cs @ CHR '' '' # b) = takeWhile ident_char cs"
    by (rule takeWhile_tail[of ident_char "CHR '' ''", OF not_ident_char_space])
  have dw: "dropWhile ident_char (cs @ CHR '' '' # b) = dropWhile ident_char cs @ CHR '' '' # b"
    by (rule dropWhile_append3[of ident_char "CHR '' ''", OF not_ident_char_space])
  have L: "findall_ident ((c # cs) @ CHR '' '' # b) =
     (if ident_start c \<and> 2 \<le> length (takeWhile ident_char cs)
      then (c # takeWhile ident_char cs) # findall_ident (dropWhile ident_char cs @ CHR '' '' # b)
      else findall_ident (cs @ CHR '' '' # b))"
    by (simp only: append_Cons findall_ident.simps(2) tw dw)
  have R: "findall_ident (c # cs) =
     (if ident_start c \<and> 2 \<le> length (takeWhile ident_char cs)
      then (c # takeWhile ident_char cs) # findall_ident (dropWhile ident_char cs)
      else findall_ident cs)"
    by (simp only: findall_ident.simps(2))
  show ?case
  proof (cases "ident_start c \<and> 2 \<le> length (takeWhile ident_char cs)")
    case True
    note L' = L[unfolded if_P[OF True]] and R' = R[unfolded if_P[OF True]]
    show ?thesis unfolding L' R' "2.IH"(1)[OF True] by (simp only: append_Cons)
  next
    case False
    note L' = L[unfolded if_not_P[OF False]] and R' = R[unfolded if_not_P[OF False]]
    show ?thesis unfolding L' R' by (rule "2.IH"(2)[OF False])
  qed
qed

lemma findall_ident_join:
  "set (findall_ident (join '' '' hs)) = (\<Union>h \<in> set hs. set (findall_ident h))"
proof (induction hs rule: induct_list012)
  case 1
  show ?case by simp
next
  case (2 x)
  show ?case by simp
next
  case (3 x y zs)
  have "join '' '' (x # y # zs) = x @ CHR '' '' # join '' '' (y # zs)" by simp
  then have "findall_ident (join '' '' (x # y # zs)) = findall_ident x @ findall_ident (join '' '' (y # zs))"
    by (simp only: findall_ident_append_space)
  with 3 show ?case by simp
qed

lemma extract_keywords_join:
  "extract_keywords (join '' '' (filter (\<lambda>h. h \<noteq> []) (map hunk ds))) = hunk_tokens ds"
proof -
  have "(\<Union>h \<in> set (filter (\<lambda>h. h \<noteq> []) (map hunk ds)). set (findall_ident h))
      = (\<Union>d \<in> set ds. set (findall_ident (hunk d)))"
  proof (rule set_eqI, rule iffI)
    fix x assume "x \<in> (\<Union>h \<in> set (filter (\<lambda>h. h \<noteq> []) (map hunk ds)). set (findall_ident h))"
    then show "x \<in> (\<Union>d \<in> set ds. set (findall_ident (hunk d)))" by auto
  next
    fix x assume "x \<in> (\<Union>d \<in> set ds. set (findall_ident (hunk d)))"
    then obtain d where d: "d \<in> set ds" "x \<in> set (findall_ident (hunk d))" by auto
    then have "hunk d \<noteq> []" by auto
    with d show "x \<in> (\<Union>h \<in> set (filter (\<lambda>h. h \<noteq> []) (map hunk ds)). set (findall_ident h))"
      by auto
  qed
  then show ?thesis
    by (auto simp: extract_keywords_def hunk_tokens_def findall_ident_join)
qed

lemma context_set_eq:
  "set (map path_name (filter (\<lambda>f. f \<noteq> []) cfs)) = declared_names (Some cfs)"
  by (auto simp: declared_names_def)

lemma diff_set_eq:
  "set (map (\<lambda>d. path_name (file_path d)) (filter (\<lambda>d. file_path d \<noteq> []) ds)) = diff_names ds"
  by (auto simp: diff_names_def)

lemma diff_names_Nil [simp]: "diff_names [] = {}"
  by (simp add: diff_names_def)

lemma hunk_tokens_Nil [simp]: "hunk_tokens [] = {}"
  by (simp add: hunk_tokens_def)

lemma declared_names_empty [simp]: "declared_names None = {}" "declared_names (Some []) = {}"
  by (simp_all add: declared_names_def)

lemma code_time_score:
  "(if changes \<noteq> [] then
      (let min_delta = Min (set (map (\<lambda>c. \<bar>total_seconds (ev_timestamp c - t)\<bar>) changes))
       in 1 / (1 + min_delta / 10))
    else 0) = spec_time_score t changes"
  by (simp add: spec_time_score_def Let_def)

lemma code_file_score:
  "(case cfs of
      None \<Rightarrow> 0
    | Some fs \<Rightarrow>
        if fs \<noteq> [] \<and> ds \<noteq> [] then
          (let context_set = set (map path_name (filter (\<lambda>f. f \<noteq> []) fs));
               diff_set = set (map (\<lambda>d. path_name (file_path d)) (filter (\<lambda>d. file_path d \<noteq> []) ds))
           in if context_set \<noteq> {} \<and> diff_set \<noteq> {}
              then real (card (context_set \<inter> diff_set)) / real (max (card context_set) 1)
              else 0)
        else 0) = spec_file_score cfs ds"
proof (cases cfs)
  case None
  then show ?thesis by (simp add: spec_file_score_def)
next
  case (Some fs)
  show ?thesis
  proof (cases "fs \<noteq> [] \<and> ds \<noteq> []")
    case True
    with Some show ?thesis
      by (simp only: option.case if_True Let_def context_set_eq diff_set_eq spec_file_score_def max.commute
          de_Morgan_disj[symmetric] if_not_P if_P split: if_splits) auto
  next
    case False
    then have "declared_names (Some fs) = {} \<or> diff_names ds = {}" by auto
    then have z: "spec_file_score (Some fs) ds = 0" by (simp add: spec_file_score_def)
    show ?thesis unfolding Some option.case if_not_P[OF False] z by (rule refl)
  qed
qed

lemma code_keyword_score:
  "(if extract_keywords p \<noteq> {} \<and> ds \<noteq> [] then
      (let diff_text = join '' '' (filter (\<lambda>h. h \<noteq> []) (map hunk ds));
           diff_words = extract_keywords diff_text
       in if diff_words \<noteq> {}
          then real (card (extract_keywords p \<inter> diff_words)) / real (max (card (extract_keywords p)) 1)
          else 0)
    else 0) = spec_keyword_score p ds"
proof (cases "ds = []")
  case True
  then show ?thesis by (simp add: spec_keyword_score_def)
next
  case False
  then show ?thesis
    by (simp add: Let_def extract_keywords_join spec_keyword_score_def max.commute)
qed

lemma calculate_match_score_formula:
  "calculate_match_score convo ds changes
     = 0.5 * spec_time_score (timestamp convo) changes
       + 0.3 * spec_file_score (context_files convo) ds
       + 0.2 * spec_keyword_score (prompt convo) ds"
proof (cases "ds = [] \<and> changes = []")
  case True
  then have "spec_time_score (timestamp convo) changes = 0" "spec_file_score (context_files convo) ds = 0"
    "spec_keyword_score (prompt convo) ds = 0"
    by (simp_all add: spec_time_score_def spec_file_score_def spec_keyword_score_def)
  with True show ?thesis by (simp add: calculate_match_score_def)
next
  case False
  have "calculate_match_score convo ds changes =
     ALPHA_TIME * (if changes \<noteq> [] then
      (let min_delta = Min (set (map (\<lambda>c. \<bar>total_seconds (ev_timestamp c - timestamp convo)\<bar>) changes))
       in 1 / (1 + min_delta / 10))
       else 0)
     + BETA_FILE * (case context_files convo of
      None \<Rightarrow> 0
    | Some fs \<Rightarrow>
        if fs \<noteq> [] \<and> ds \<noteq> [] then
          (let context_set = set (map path_name (filter (\<lambda>f. f \<noteq> []) fs));
               diff_set = set (map (\<lambda>d. path_name (file_path d)) (filter (\<lambda>d. file_path d \<noteq> []) ds))
           in if context_set \<noteq> {} \<and> diff_set \<noteq> {}
              then real (card (context_set \<inter> diff_set)) / real (max (card context_set) 1)
              else 0)
        else 0)
     + GAMMA_KEYWORD * (if extract_keywords (prompt convo) \<noteq> {} \<and> ds \<noteq> [] then
      (let diff_text = join '' '' (filter (\<lambda>h. h \<noteq> []) (map hunk ds));
           diff_words = extract_keywords diff_text
       in if diff_words \<noteq> {}
          then real (card (extract_keywords (prompt convo) \<inter> diff_words)) / real (max (card (extract_keywords (prompt convo))) 1)
          else 0)
      else 0)"
    using False unfolding calculate_match_score_def Let_def by (simp only: if_False)
  then show ?thesis
    by (simp only: code_time_score code_file_score code_keyword_score ALPHA_TIME_def BETA_FILE_def GAMMA_KEYWORD_def)
qed

lemma scenario_file_score: "spec_file_score (Some [''auth.js'']) [scenario_diff] = 1"
  by code_simp
lemma scenario_keyword_score: "spec_keyword_score ''please fix the login bug'' [scenario_diff] = 0"
  by code_simp
lemma scenario_combined_diff: "get_combined_diff scenario_repo None = Inr [scenario_diff]"
  by code_simp
lemma scenario_title: "generate_clean_title ''please fix the login bug'' = ''Fix the login bug''"
  by code_simp
lemma scenario_reasoning: "extract_reasoning ''I updated auth.js to fix the null check. [Thinking: the null check was backwards]'' = ''the null check was backwards''"
  by code_simp

lemma scenario_exchange_fields: "scenario_exchange t0 = \<lparr>timestamp = t0, prompt = ''please fix the login bug'',
     response = ''I updated auth.js to fix the null check. [Thinking: the null check was backwards]'',
     model_name = [], session_id = [], context_files = Some [''auth.js''], project_name = [], project_path = []\<rparr>"
proof -
  have p: "strip (sub_reminder_block (strip (sub_user_query_ws ''please fix the login bug''))) = ''please fix the login bug''"
    by code_simp
  have r: "strip (sub_reminder_block ''I updated auth.js to fix the null check. [Thinking: the null check was backwards]'')
     = ''I updated auth.js to fix the null check. [Thinking: the null check was backwards]''"
    by code_simp
  show ?thesis
    by (simp add: scenario_exchange_def exchange_def post_init_def Let_def p r
        del: sub_user_query_ws.simps sub_reminder_block.simps)
qed

lemma scenario_matcher_fields:
  "scenario_matcher t0 dt =
     \<lparr>window = 90000000,
      pending_prompts = [(scenario_exchange t0, CLAUDECODE, [], [])],
      file_changes = [\<lparr>ev_file_path = ''src/auth.js'', ev_change_type = ''modified'',
                       ev_timestamp = t0 + dt * 1000000\<rparr>]\<rparr>"
proof -
  have "project_name (scenario_exchange t0) = []" "project_path (scenario_exchange t0) = []"
    by (simp_all only: scenario_exchange_fields RawConversation.select_convs)
  then show ?thesis
    by (simp add: scenario_matcher_def add_file_change_def add_prompt_def new_matcher_def
        DEFAULT_WINDOW_SECONDS_def timedelta_seconds_def Let_def)
qed

lemma scenario_candidates:
  "find_changes_in_window (scenario_matcher t0 5) (timestamp (scenario_exchange t0))
     = [\<lparr>ev_file_path = ''src/auth.js'', ev_change_type = ''modified'', ev_timestamp = t0 + 5000000\<rparr>]"
proof -
  have "timestamp (scenario_exchange t0) = t0"
    by (simp only: scenario_exchange_fields RawConversation.select_convs)
  then show ?thesis
    by (simp add: scenario_matcher_fields find_changes_in_window_def Let_def)
qed

lemma scenario_diff_not_Nil: "[scenario_diff] \<noteq> []"
  by simp

lemma scenario_acquire:
  "acquire_diffs (Some scenario_repo) mc = Inr [scenario_diff]"
  by (simp add: acquire_diffs_def scenario_combined_diff)

lemma scenario_time_score:
  "spec_time_score t0 [\<lparr>ev_file_path = ''src/auth.js'', ev_change_type = ''modified'', ev_timestamp = t0 + 5000000\<rparr>] = 2 / 3"
  by (simp add: spec_time_score_def total_seconds_def)

lemma scenario_match:
  "match_prompt (scenario_matcher t0 5) (Some scenario_repo) (scenario_exchange t0)
     = Inr ([\<lparr>ev_file_path = ''src/auth.js'', ev_change_type = ''modified'', ev_timestamp = t0 + 5000000\<rparr>],
            [scenario_diff], 19 / 30)"
proof -
  have f: "timestamp (scenario_exchange t0) = t0"
    "context_files (scenario_exchange t0) = Some [''auth.js'']"
    "prompt (scenario_exchange t0) = ''please fix the login bug''"
    by (simp_all only: scenario_exchange_fields RawConversation.select_convs)
  have "calculate_match_score (scenario_exchange t0) [scenario_diff]
      [\<lparr>ev_file_path = ''src/auth.js'', ev_change_type = ''modified'', ev_timestamp = t0 + 5000000\<rparr>]
      = 19 / 30"
    unfolding calculate_match_score_formula f scenario_time_score scenario_file_score
      scenario_keyword_score by simp
  then show ?thesis
    unfolding match_prompt_def Let_def scenario_candidates scenario_acquire by simp
qed

text \<open>
  Claim C2, as amended. The score that \<open>flush\<close> computes for an exchange (the local
  \<open>score\<close>; the output record has no field for it) is 0.5 times the time score plus 0.3
  times the file score plus 0.2 times the keyword score, where the time score is taken over
  the candidate changes of the exchange, the file score compares the file names of the
  declared context files with the file names of the diffs, and the keyword score compares
  the tokens of the prompt with the tokens of the hunks.
\<close>

theorem match_score_formula:
  "calculate_match_score convo ds changes
     = 0.5 * spec_time_score (timestamp convo) changes
       + 0.3 * spec_file_score (context_files convo) ds
       + 0.2 * spec_keyword_score (prompt convo) ds
   \<and> (match_prompt m git_capture convo = Inr (changes', ds', score) \<longrightarrow>
        changes' = find_changes_in_window m (timestamp convo)
        \<and> acquire_diffs git_capture changes' = Inr ds'
        \<and> score = 0.5 * spec_time_score (timestamp convo) changes'
                  + 0.3 * spec_file_score (context_files convo) ds'
                  + 0.2 * spec_keyword_score (prompt convo) ds')"
proof (intro conjI impI)
  show "calculate_match_score convo ds changes
     = 0.5 * spec_time_score (timestamp convo) changes
       + 0.3 * spec_file_score (context_files convo) ds
       + 0.2 * spec_keyword_score (prompt convo) ds"
    by (rule calculate_match_score_formula)
  assume a: "match_prompt m git_capture convo = Inr (changes', ds', score)"
  then show c: "changes' = find_changes_in_window m (timestamp convo)"
    by (auto simp: match_prompt_def Let_def split: sum.splits)
  from a show "acquire_diffs git_capture changes' = Inr ds'"
    by (auto simp: match_prompt_def Let_def split: sum.splits)
  from a have "score = calculate_match_score convo ds' changes'"
    by (auto simp: match_prompt_def Let_def split: sum.splits)
  then show "score = 0.5 * spec_time_score (timestamp convo) changes'
                  + 0.3 * spec_file_score (context_files convo) ds'
                  + 0.2 * spec_keyword_score (prompt convo) ds'"
    by (simp only: calculate_match_score_formula)
qed

theorem match_score_formula_witness:
  "(19 / 30 :: real)
     = 0.5 * spec_time_score (timestamp (scenario_exchange 0))
               [\<lparr>ev_file_path = ''src/auth.js'', ev_change_type = ''modified'', ev_timestamp = 5000000\<rparr>]
       + 0.3 * spec_file_score (context_files (scenario_exchange 0)) [scenario_diff]
       + 0.2 * spec_keyword_score (prompt (scenario_exchange 0)) [scenario_diff]
   \<and> spec_time_score 0 [\<lparr>ev_file_path = ''src/auth.js'', ev_change_type = ''modified'', ev_timestamp = 5000000\<rparr>] = 2 / 3
   \<and> spec_file_score (Some [''auth.js'']) [scenario_diff] = 1
   \<and> spec_keyword_score ''please fix the login bug'' [scenario_diff] = 0"
proof -
  have M: "match_prompt (scenario_matcher 0 5) (Some scenario_repo) (scenario_exchange 0)
     = Inr ([\<lparr>ev_file_path = ''src/auth.js'', ev_change_type = ''modified'', ev_timestamp = 5000000\<rparr>],
            [scenario_diff], 19 / 30)"
    using scenario_match[of 0] by simp
  note T = match_score_formula[of "scenario_exchange 0" _ _ "scenario_matcher 0 5" "Some scenario_repo"
      "[\<lparr>ev_file_path = ''src/auth.js'', ev_change_type = ''modified'', ev_timestamp = 5000000\<rparr>]"
      "[scenario_diff]" "19 / 30", THEN conjunct2, rule_format, OF M]
  note A = T[THEN conjunct2, THEN conjunct2]
  have B: "spec_time_score 0 [\<lparr>ev_file_path = ''src/auth.js'', ev_change_type = ''modified'', ev_timestamp = 5000000\<rparr>] = 2 / 3"
    using scenario_time_score[of 0] by simp
  from A B scenario_file_score scenario_keyword_score show ?thesis by (intro conjI)
qed

text \<open>
  The claim as written speaks of a score attached to the output. Two flushes that differ
  only in the time of the file change return the same record, and compute different scores:
  the record does not hold the score.
\<close>

theorem score_not_in_record_counterexample:
  "fst (flush (scenario_matcher 0 5) (Some scenario_repo) 10000000 (\<lambda>i. ''node'') (\<lambda>p. 0))
     = Inr [build_node (\<lambda>p. 0) ''node'' (scenario_exchange 0) CLAUDECODE [] [] [scenario_diff]]
   \<and> fst (flush (scenario_matcher 0 50) (Some scenario_repo) 10000000 (\<lambda>i. ''node'') (\<lambda>p. 0))
     = Inr [build_node (\<lambda>p. 0) ''node'' (scenario_exchange 0) CLAUDECODE [] [] [scenario_diff]]
   \<and> map_sum id (\<lambda>r. snd (snd r)) (match_prompt (scenario_matcher 0 5) (Some scenario_repo) (scenario_exchange 0))
       = Inr (19 / 30)
   \<and> map_sum id (\<lambda>r. snd (snd r)) (match_prompt (scenario_matcher 0 50) (Some scenario_repo) (scenario_exchange 0))
       = Inr (23 / 60)"
  by code_simp

text \<open>
  Claim C8, as amended. In the end-to-end scenario, for every time \<open>t0\<close> of the exchange,
  \<open>flush\<close> returns one record, whose affected files are \<open>src/auth.js\<close>, whose title is
  \<open>Fix the login bug\<close> and whose reasoning excerpt is \<open>the null check was backwards\<close>.
  The score computed for it is 19/30: the change comes 5 seconds after the exchange (time
  score 2/3), the one declared file matches (file score 1), and the prompt shares no token
  with the hunk (keyword score 0). It is not greater than 0.7.
\<close>

theorem end_to_end_scenario:
  "(\<exists>node. fst (flush (scenario_matcher t0 5) (Some scenario_repo) now uuid4 rank) = Inr [node]
      \<and> affected_files (execution node) = [''src/auth.js'']
      \<and> clean_title (intent node) = ''Fix the login bug''
      \<and> reasoning (execution node) = ''the null check was backwards''
      \<and> diffs (execution node) = [scenario_diff])
   \<and> match_prompt (scenario_matcher t0 5) (Some scenario_repo) (scenario_exchange t0)
       = Inr ([\<lparr>ev_file_path = ''src/auth.js'', ev_change_type = ''modified'',
                 ev_timestamp = t0 + 5000000\<rparr>], [scenario_diff], 19 / 30)"
proof (intro conjI)
  let ?node = "build_node rank (uuid4 0) (scenario_exchange t0) CLAUDECODE [] [] [scenario_diff]"
  have p: "pending_prompts (scenario_matcher t0 5) = [(scenario_exchange t0, CLAUDECODE, [], [])]"
    by (simp only: scenario_matcher_fields TemporalMatcher.select_convs)
  have "flush_nodes (scenario_matcher t0 5) (Some scenario_repo) uuid4 rank 0
          (pending_prompts (scenario_matcher t0 5)) = Inr [?node]"
    unfolding p by (simp add: scenario_match)
  then have f: "fst (flush (scenario_matcher t0 5) (Some scenario_repo) now uuid4 rank) = Inr [?node]"
    by (simp add: flush_def)
  have e: "prompt (scenario_exchange t0) = ''please fix the login bug''"
    "response (scenario_exchange t0)
       = ''I updated auth.js to fix the null check. [Thinking: the null check was backwards]''"
    by (simp_all only: scenario_exchange_fields RawConversation.select_convs)
  have a: "affected_files (execution ?node) = [''src/auth.js'']"
    by (simp add: build_node_def scenario_diff_def list_of_set_def)
  have t: "clean_title (intent ?node) = ''Fix the login bug''"
    by (simp add: build_node_def e scenario_title)
  have r: "reasoning (execution ?node) = ''the null check was backwards''"
    by (simp add: build_node_def e scenario_reasoning)
  have d: "diffs (execution ?node) = [scenario_diff]"
    by (simp add: build_node_def)
  from f a t r d
  show "\<exists>node. fst (flush (scenario_matcher t0 5) (Some scenario_repo) now uuid4 rank) = Inr [node]
      \<and> affected_files (execution node) = [''src/auth.js'']
      \<and> clean_title (intent node) = ''Fix the login bug''
      \<and> reasoning (execution node) = ''the null check was backwards''
      \<and> diffs (execution node) = [scenario_diff]"
    by (intro exI[of _ ?node] conjI)
  show "match_prompt (scenario_matcher t0 5) (Some scenario_repo) (scenario_exchange t0)
       = Inr ([\<lparr>ev_file_path = ''src/auth.js'', ev_change_type = ''modified'',
                 ev_timestamp = t0 + 5000000\<rparr>], [scenario_diff], 19 / 30)"
    by (rule scenario_match)
qed

theorem end_to_end_scenario_witness:
  "(\<exists>node. fst (flush (scenario_matcher 1700000000000000 5) (Some scenario_repo) 1700000060000000 (\<lambda>i. ''node'') (\<lambda>p. 0)) = Inr [node]
      \<and> affected_files (execution node) = [''src/auth.js'']
      \<and> clean_title (intent node) = ''Fix the login bug''
      \<and> reasoning (execution node) = ''the null check was backwards''
      \<and> diffs (execution node) = [scenario_diff])
   \<and> match_prompt (scenario_matcher 1700000000000000 5) (Some scenario_repo) (scenario_exchange 1700000000000000)
       = Inr ([\<lparr>ev_file_path = ''src/auth.js'', ev_change_type = ''modified'',
                 ev_timestamp = 1700000000000000 + 5000000\<rparr>], [scenario_diff], 19 / 30)"
  by (rule end_to_end_scenario[of 1700000000000000 1700000060000000 "\<lambda>i. ''node''" "\<lambda>p. 0"])

text \<open>
  The claim as written asks for a score above 0.7; the code computes 19/30.
\<close>

theorem scenario_score_counterexample:
  "\<not> (\<exists>changes ds score.
        match_prompt (scenario_matcher 0 5) (Some scenario_repo) (scenario_exchange 0)
          = Inr (changes, ds, score) \<and> score > 0.7)"
  using scenario_match[of 0] by simp

section \<open>Properties of the terminal proxy\<close>

lemma timestamp_post_init [simp]: "timestamp (post_init c) = timestamp c"
  by (simp add: post_init_def Let_def)

lemma raw_exchange_timestamp [simp]: "timestamp (raw_exchange t p r) = t"
  by (simp add: raw_exchange_def exchange_def)





lemma strip_nonempty_length: "length (strip s) > 20 \<Longrightarrow> strip s \<noteq> []"
  by auto







end
